theory Spec2Isabelle
  imports Main
begin

section \<open>Strings of the source language\<close>

text \<open>
  A JavaScript string is a sequence of UTF-16 code units, and a regular expression
  without the \<open>u\<close> flag matches one code unit at a time. A code unit is modelled as an
  integer; every list of code units from 0 to 65535 is a string the filter can
  receive, and the theorems below hold for every list. \<open>js\<close> turns a literal of
  ASCII characters into such a string.
\<close>

type_synonym jschar = int
type_synonym jsstring = "int list"

definition js :: "string \<Rightarrow> jsstring" where
  "js cs = map of_char cs"

definition cu :: "char \<Rightarrow> jschar" where
  "cu c = of_char c"

section \<open>Regular expressions with backtracking\<close>

text \<open>
  \<open>canonicalize\<close> is the case folding of the \<open>i\<close> flag (ECMAScript Canonicalize
  without \<open>u\<close>): a code unit is mapped to its upper case, except that a code unit from
  128 on is never mapped below 128. Every pattern character and class bound of the
  regular expressions of the filter is ASCII, so for a code unit from 128 on only the
  fact that its canonical form stays from 128 on matters; it is modelled as unchanged.
\<close>

definition canonicalize :: "jschar \<Rightarrow> jschar" where
  "canonicalize c = (if 97 \<le> c \<and> c \<le> 122 then c - 32 else c)"

text \<open>The class \<open>\s\<close>: the WhiteSpace and LineTerminator code units.\<close>

definition isSpace :: "jschar \<Rightarrow> bool" where
  "isSpace c \<longleftrightarrow> c = 9 \<or> c = 10 \<or> c = 11 \<or> c = 12 \<or> c = 13 \<or> c = 32 \<or> c = 160
     \<or> c = 5760 \<or> (8192 \<le> c \<and> c \<le> 8202) \<or> c = 8232 \<or> c = 8233 \<or> c = 8239
     \<or> c = 8287 \<or> c = 12288 \<or> c = 65279"

datatype rx =
    Atom "jschar \<Rightarrow> bool"
  | Eps
  | Seq rx rx
  | Star rx
  | Lazy rx
  | Group nat rx
  | BackrefI nat

type_synonym captures = "nat \<Rightarrow> jsstring option"
type_synonym mstate = "jsstring \<times> captures"

text \<open>
  \<open>ms r (s, caps)\<close> lists, in the order a backtracking matcher tries them, the states
  after a match of \<open>r\<close> at the start of \<open>s\<close>: the rest of the input and the captures.
  The first element is the match the engine reports. \<open>Star\<close> is the greedy \<open>*\<close>,
  \<open>Lazy\<close> is \<open>*?\<close>; an iteration that consumes nothing is rejected, as in
  ECMAScript. \<open>BackrefI\<close> is a backreference under the \<open>i\<close> flag.
\<close>

fun ms :: "rx \<Rightarrow> mstate \<Rightarrow> mstate list" where
  "ms (Atom p) (s, caps) = (case s of [] \<Rightarrow> [] | c # cs \<Rightarrow> if p c then [(cs, caps)] else [])"
| "ms Eps st = [st]"
| "ms (Seq a b) st = concat (map (ms b) (ms a st))"
| "ms (Star a) (s, caps) =
     concat (map (\<lambda>st'. if length (fst st') < length s then ms (Star a) st' else [])
                 (ms a (s, caps))) @ [(s, caps)]"
| "ms (Lazy a) (s, caps) =
     (s, caps) # concat (map (\<lambda>st'. if length (fst st') < length s then ms (Lazy a) st' else [])
                 (ms a (s, caps)))"
| "ms (Group i a) (s, caps) =
     map (\<lambda>(s', caps'). (s', caps'(i \<mapsto> take (length s - length s') s))) (ms a (s, caps))"
| "ms (BackrefI i) (s, caps) =
     (case caps i of
        None \<Rightarrow> [(s, caps)]
      | Some t \<Rightarrow>
          if length t \<le> length s \<and> map canonicalize (take (length t) s) = map canonicalize t
          then [(drop (length t) s, caps)] else [])"

definition noCaptures :: captures where
  "noCaptures = (\<lambda>i. None)"

definition firstMatch :: "rx \<Rightarrow> jsstring \<Rightarrow> mstate option" where
  "firstMatch r s = (case ms r (s, noCaptures) of [] \<Rightarrow> None | st # _ \<Rightarrow> Some st)"

text \<open>\<open>occurs r s\<close>: the expression matches at some position of \<open>s\<close>.\<close>

fun occurs :: "rx \<Rightarrow> jsstring \<Rightarrow> bool" where
  "occurs r [] = (firstMatch r [] \<noteq> None)"
| "occurs r (c # cs) = (firstMatch r (c # cs) \<noteq> None \<or> occurs r cs)"

subsection \<open>Character classes and pattern builders\<close>

text \<open>
  Under the \<open>i\<close> flag a pattern character matches the code units with the same
  canonical form, and \<open>[a-z]\<close> matches the code units whose canonical form lies in
  \<open>A\<close> to \<open>Z\<close>. A pattern character that is not a letter, a negated class of such
  characters, a digit range and \<open>\s\<close> match the same code units with and without the flag.
\<close>

definition isChar :: "char \<Rightarrow> jschar \<Rightarrow> bool" where
  "isChar c x \<longleftrightarrow> x = cu c"

definition isCharI :: "char \<Rightarrow> jschar \<Rightarrow> bool" where
  "isCharI c x \<longleftrightarrow> canonicalize x = canonicalize (cu c)"

definition isLetterI :: "jschar \<Rightarrow> bool" where
  "isLetterI x \<longleftrightarrow> 65 \<le> canonicalize x \<and> canonicalize x \<le> 90"

definition isDigit :: "jschar \<Rightarrow> bool" where
  "isDigit x \<longleftrightarrow> 48 \<le> x \<and> x \<le> 57"

text \<open>The class of the two quote characters, code units 34 and 39.\<close>

definition isQuote :: "jschar \<Rightarrow> bool" where
  "isQuote x \<longleftrightarrow> x = 34 \<or> x = 39"

definition seqs :: "rx list \<Rightarrow> rx" where
  "seqs rs = foldr Seq rs Eps"

definition lit :: "string \<Rightarrow> rx" where
  "lit cs = seqs (map (\<lambda>c. Atom (isChar c)) cs)"

definition litI :: "string \<Rightarrow> rx" where
  "litI cs = seqs (map (\<lambda>c. Atom (isCharI c)) cs)"

definition PlusRx :: "rx \<Rightarrow> rx" where
  "PlusRx r = Seq r (Star r)"

subsection \<open>The regular expressions of \<open>removeUnwantedElements\<close> (src/index.ts)\<close>

text \<open>
  \<open>elementRx name\<close> is \<^verbatim>\<open>/<name[^>]*>[\s\S]*?<\/name>/gi\<close> and \<open>tagRx name\<close> is
  \<^verbatim>\<open>/<name[^>]*>/gi\<close>.
\<close>

definition elementRx :: "string \<Rightarrow> rx" where
  "elementRx name =
     seqs [litI (''<'' @ name), Star (Atom (\<lambda>c. \<not> isChar CHR ''>'' c)), Atom (isChar CHR ''>''),
           Lazy (Atom (\<lambda>c. True)), litI (''</'' @ name @ ''>'')]"

definition tagRx :: "string \<Rightarrow> rx" where
  "tagRx name =
     seqs [litI (''<'' @ name), Star (Atom (\<lambda>c. \<not> isChar CHR ''>'' c)), Atom (isChar CHR ''>'')]"

definition headRx :: rx where "headRx = elementRx ''head''"
definition scriptRx :: rx where "scriptRx = elementRx ''script''"
definition styleRx :: rx where "styleRx = elementRx ''style''"
definition svgRx :: rx where "svgRx = elementRx ''svg''"
definition italicRx :: rx where "italicRx = elementRx ''i''"
definition metaRx :: rx where "metaRx = tagRx ''meta''"
definition inputRx :: rx where "inputRx = tagRx ''input''"

text \<open>\<^verbatim>\<open>/<img[^>]*src=["']data:image[^"']*;base64,[^"']*["'][^>]*>/gi\<close>\<close>

definition imgDataRx :: rx where
  "imgDataRx =
     seqs [litI ''<img'', Star (Atom (\<lambda>c. \<not> isChar CHR ''>'' c)), litI ''src='', Atom isQuote,
           litI ''data:image'', Star (Atom (\<lambda>c. \<not> isQuote c)), litI '';base64,'',
           Star (Atom (\<lambda>c. \<not> isQuote c)), Atom isQuote,
           Star (Atom (\<lambda>c. \<not> isChar CHR ''>'' c)), Atom (isChar CHR ''>'')]"

text \<open>\<^verbatim>\<open>/data:image[^";)]*;base64,[A-Za-z0-9+/=]+/g\<close>, without the \<open>i\<close> flag.\<close>

definition isBase64Char :: "jschar \<Rightarrow> bool" where
  "isBase64Char c \<longleftrightarrow> (65 \<le> c \<and> c \<le> 90) \<or> (97 \<le> c \<and> c \<le> 122) \<or> isDigit c
     \<or> isChar CHR ''+'' c \<or> isChar CHR ''/'' c \<or> isChar CHR ''='' c"

definition dataUriRx :: rx where
  "dataUriRx =
     seqs [lit ''data:image'',
           Star (Atom (\<lambda>c. c \<noteq> 34 \<and> \<not> isChar CHR '';'' c \<and> \<not> isChar CHR '')'' c)),
           lit '';base64,'', PlusRx (Atom isBase64Char)]"

text \<open>\<^verbatim>\<open>/<([a-z][a-z0-9]*)\s+([^>]*)>/gi\<close>\<close>

definition openTagRx :: rx where
  "openTagRx =
     seqs [Atom (isChar CHR ''<''),
           Group 1 (Seq (Atom isLetterI) (Star (Atom (\<lambda>c. isLetterI c \<or> isDigit c)))),
           PlusRx (Atom isSpace),
           Group 2 (Star (Atom (\<lambda>c. \<not> isChar CHR ''>'' c))),
           Atom (isChar CHR ''>'')]"

text \<open>\<^verbatim>\<open>/([a-z][a-z0-9-]*)\s*=\s*["']([^"']*)["']/gi\<close>\<close>

definition attrRegex :: rx where
  "attrRegex =
     seqs [Group 1 (Seq (Atom isLetterI)
                        (Star (Atom (\<lambda>c. isLetterI c \<or> isDigit c \<or> isChar CHR ''-'' c)))),
           Star (Atom isSpace), Atom (isChar CHR ''=''), Star (Atom isSpace),
           Atom isQuote, Group 2 (Star (Atom (\<lambda>c. \<not> isQuote c))), Atom isQuote]"

text \<open>\<^verbatim>\<open>/>\s+</g\<close>\<close>

definition betweenTagsRx :: rx where
  "betweenTagsRx = seqs [Atom (isChar CHR ''>''), PlusRx (Atom isSpace), Atom (isChar CHR ''<'')]"

text \<open>\<^verbatim>\<open>/<([a-z][a-z0-9]*)>\s*<\/\1>/gi\<close>\<close>

definition emptyElementRx :: rx where
  "emptyElementRx =
     seqs [Atom (isChar CHR ''<''),
           Group 1 (Seq (Atom isLetterI) (Star (Atom (\<lambda>c. isLetterI c \<or> isDigit c)))),
           Atom (isChar CHR ''>''), Star (Atom isSpace), litI ''</'', BackrefI 1,
           Atom (isChar CHR ''>'')]"

subsection \<open>The strings that the parts of the tag and attribute patterns match\<close>

text \<open>
  \<open>isTagName\<close> holds of the strings that \<^verbatim>\<open>[a-z][a-z0-9]*\<close> matches as a whole under
  the \<open>i\<close> flag, \<open>isAttrName\<close> of those that \<^verbatim>\<open>[a-z][a-z0-9-]*\<close> matches, and
  \<open>isBlank\<close> of those that \<^verbatim>\<open>\s*\<close> matches (lemma \<open>name_patterns\<close>). With them a
  match of \<open>openTagRx\<close> and of \<open>attrRegex\<close> is described without the matcher.
\<close>

definition isTagName :: "jsstring \<Rightarrow> bool" where
  "isTagName t \<longleftrightarrow> t \<noteq> [] \<and> isLetterI (hd t) \<and> list_all (\<lambda>c. isLetterI c \<or> isDigit c) (tl t)"

definition isAttrName :: "jsstring \<Rightarrow> bool" where
  "isAttrName t \<longleftrightarrow> t \<noteq> [] \<and> isLetterI (hd t)
     \<and> list_all (\<lambda>c. isLetterI c \<or> isDigit c \<or> isChar CHR ''-'' c) (tl t)"

definition isBlank :: "jsstring \<Rightarrow> bool" where
  "isBlank w \<longleftrightarrow> list_all isSpace w"

section \<open>Global replacement\<close>

text \<open>
  \<open>replaceAll r f s\<close> is \<open>s.replaceAll(r, f)\<close> for a global expression: the input is
  scanned from the left; where the expression matches, the callback's result for the
  matched text and the captures is emitted and the scan goes on behind the match
  (behind the next code unit when the match is empty); elsewhere the code unit is
  copied. \<open>execAll r s\<close> is the list of matches that a loop over \<open>r.exec(s)\<close>
  collects. No expression of the filter matches the empty string (lemmas
  \<open>minlen_regexes\<close>, \<open>patterns_consume\<close> and \<open>firstMatch_progress\<close>), so the
  branches for an empty match are never taken; in \<open>execAll\<close> that branch stands for
  a loop of the source that would not end.
\<close>

fun replaceAll :: "rx \<Rightarrow> (jsstring \<Rightarrow> captures \<Rightarrow> jsstring) \<Rightarrow> jsstring \<Rightarrow> jsstring" where
  "replaceAll r f s =
     (case firstMatch r s of
        None \<Rightarrow> (case s of [] \<Rightarrow> [] | c # cs \<Rightarrow> c # replaceAll r f cs)
      | Some (rest, caps) \<Rightarrow>
          if length rest < length s
          then f (take (length s - length rest) s) caps @ replaceAll r f rest
          else f [] caps @ (case s of [] \<Rightarrow> [] | c # cs \<Rightarrow> c # replaceAll r f cs))"

fun execAll :: "rx \<Rightarrow> jsstring \<Rightarrow> (jsstring \<times> captures) list" where
  "execAll r s =
     (case firstMatch r s of
        None \<Rightarrow> (case s of [] \<Rightarrow> [] | c # cs \<Rightarrow> execAll r cs)
      | Some (rest, caps) \<Rightarrow>
          if length rest < length s
          then (take (length s - length rest) s, caps) # execAll r rest
          else [])"

declare replaceAll.simps [simp del] execAll.simps [simp del]

section \<open>The content filter of src/index.ts\<close>

text \<open>The value of a capture group in the callback; a group that took no part is \<open>undefined\<close>.\<close>

definition capture :: "captures \<Rightarrow> nat \<Rightarrow> jsstring" where
  "capture caps i = (case caps i of None \<Rightarrow> js ''undefined'' | Some t \<Rightarrow> t)"

text \<open>
  \<open>toLowerCase\<close> on the ASCII range; it is only applied to the first capture of
  \<open>attrRegex\<close>, which consists of ASCII letters, digits and hyphens.
\<close>

definition toLowerCase :: "jsstring \<Rightarrow> jsstring" where
  "toLowerCase s = map (\<lambda>c. if 65 \<le> c \<and> c \<le> 90 then c + 32 else c) s"

fun join :: "jsstring \<Rightarrow> jsstring list \<Rightarrow> jsstring" where
  "join sep [] = []"
| "join sep [x] = x"
| "join sep (x # y # ys) = x @ sep @ join sep (y # ys)"

definition allowedAttrs :: "jsstring list" where
  "allowedAttrs = [js ''id'', js ''href'', js ''src'']"

text \<open>The inner loop of the callback: the matches of \<open>attrRegex\<close> whose name is allowed.\<close>

definition cleanedAttrs :: "jsstring \<Rightarrow> jsstring list" where
  "cleanedAttrs attrs =
     map fst (filter (\<lambda>(attrMatch, caps). toLowerCase (capture caps 1) \<in> set allowedAttrs)
                     (execAll attrRegex attrs))"

text \<open>The callback of the attribute pass, with \<open>tag\<close> and \<open>attrs\<close> the two captures.\<close>

definition rebuildTag :: "jsstring \<Rightarrow> captures \<Rightarrow> jsstring" where
  "rebuildTag match caps =
     (let tag = capture caps 1; attrs = capture caps 2; cleaned = cleanedAttrs attrs
      in js ''<'' @ tag @ (if length cleaned > 0 then js '' '' @ join (js '' '') cleaned else [])
         @ js ''>'')"

text \<open>The chain of nine replacements, \<open>head\<close> first and \<open>input\<close> last.\<close>

definition removeElements :: "jsstring \<Rightarrow> jsstring" where
  "removeElements s =
     replaceAll inputRx (\<lambda>_ _. [])
    (replaceAll italicRx (\<lambda>_ _. [])
    (replaceAll dataUriRx (\<lambda>_ _. [])
    (replaceAll metaRx (\<lambda>_ _. [])
    (replaceAll imgDataRx (\<lambda>_ _. [])
    (replaceAll svgRx (\<lambda>_ _. [])
    (replaceAll styleRx (\<lambda>_ _. [])
    (replaceAll scriptRx (\<lambda>_ _. [])
    (replaceAll headRx (\<lambda>_ _. []) s))))))))"

definition stripAttributes :: "jsstring \<Rightarrow> jsstring" where
  "stripAttributes s = replaceAll openTagRx rebuildTag s"

definition collapseBetweenTags :: "jsstring \<Rightarrow> jsstring" where
  "collapseBetweenTags s = replaceAll betweenTagsRx (\<lambda>_ _. js ''><'') s"

definition pruneEmpty :: "jsstring \<Rightarrow> jsstring" where
  "pruneEmpty s = replaceAll emptyElementRx (\<lambda>_ _. []) s"

text \<open>One run of the body of the \<open>do ... while\<close> loop.\<close>

definition loopBody :: "jsstring \<Rightarrow> jsstring" where
  "loopBody s = pruneEmpty (collapseBetweenTags (stripAttributes (removeElements s)))"

text \<open>
  The loop \<open>do { previous = result; result = body(result) } while (result !== previous)\<close>.
  It is a partial function: \<open>None\<close> stands for a loop that does not end.
\<close>

partial_function (option) doWhile :: "jsstring \<Rightarrow> jsstring option" where
  "doWhile result =
     (let previous = result; result' = loopBody previous
      in if result' \<noteq> previous then doWhile result' else Some result')"

declare doWhile.simps [code]

definition removeUnwantedElements :: "jsstring \<Rightarrow> jsstring option" where
  "removeUnwantedElements html = doWhile html"

section \<open>The content filter of the second implementation\<close>

text \<open>
  The second source file (src/unnamed/part_000) differs from src/index.ts in
  \<open>removeUnwantedElements\<close> only: there the function is one call of \<open>sanitizeHtml\<close>,
  of the library sanitize-html, with the options below. The library is not part of the
  repository, so the call is a parameter of the model.
\<close>

record sanitizeOptions =
  allowedTags :: "string list"
  allowedAttributes :: "(string \<times> string list) list"
  allowedSchemes :: "string list"
  allowedSchemesAppliedToAttributes :: "string list"
  allowProtocolRelative :: bool
  allowedSchemesByTag :: "(string \<times> string list) list"

definition options :: sanitizeOptions where
  "options =
     \<lparr>allowedTags =
        [''a'', ''p'', ''div'', ''span'', ''ul'', ''ol'', ''li'', ''strong'', ''em'', ''b'', ''u'',
         ''small'', ''sub'', ''sup'', ''br'', ''hr'', ''code'', ''pre'', ''blockquote'', ''table'',
         ''thead'', ''tbody'', ''tr'', ''th'', ''td'', ''img'', ''button''],
      allowedAttributes = [(''*'', [''id'']), (''a'', [''href'']), (''img'', [''src'', ''alt''])],
      allowedSchemes = [''http'', ''https'', ''mailto''],
      allowedSchemesAppliedToAttributes = [''href'', ''src''],
      allowProtocolRelative = False,
      allowedSchemesByTag = [(''img'', [''http'', ''https''])]\<rparr>"

definition removeUnwantedElements2 ::
  "(jsstring \<Rightarrow> sanitizeOptions \<Rightarrow> jsstring) \<Rightarrow> jsstring \<Rightarrow> jsstring" where
  "removeUnwantedElements2 sanitizeHtml html = sanitizeHtml html options"

section \<open>Session enumerator, page evaluator and request router\<close>

record CDPTarget =
  id' :: jsstring
  title :: jsstring
  url :: jsstring
  type' :: jsstring
  webSocketDebuggerUrl :: "jsstring option"

datatype ErrorCode = InternalError | InvalidRequest

text \<open>
  What a call throws: an \<open>McpError\<close> with the code and message given to its constructor,
  or a rejection of the debugging client itself, which the source passes on unchanged.
\<close>

datatype failure = McpError ErrorCode jsstring | ClientRejected

text \<open>
  The expression sent to the page is one of two templates; the model keeps which one and
  the selector, not the text. An evaluation is rejected by the client, or yields a
  result with or without \<open>exceptionDetails\<close> and a value (\<open>None\<close> for \<open>null\<close> or
  \<open>undefined\<close>).
\<close>

datatype expression = DocumentOuterHTML | SelectorOuterHTML jsstring

datatype evaluation = EvaluateRejected | Evaluated bool "jsstring option"

text \<open>
  The browser process and the configuration, as the functions see them: \<open>CDP_HOST\<close> and
  the text of \<open>CDP_PORT\<close>, the answer of \<open>CDP.List\<close> (\<open>None\<close> when it rejects), whether
  a session to a target opens, and the answer of \<open>Runtime.evaluate\<close> in a session.
  Closing a session is taken to succeed.
\<close>

record browser =
  CDP_HOST :: jsstring
  CDP_PORT :: jsstring
  cdpList :: "CDPTarget list option"
  cdpOpen :: "jsstring \<Rightarrow> bool"
  runtimeEvaluate :: "jsstring \<Rightarrow> expression \<Rightarrow> evaluation"

definition getTargets :: "browser \<Rightarrow> failure + CDPTarget list" where
  "getTargets b =
     (case cdpList b of
        None \<Rightarrow> Inl (McpError InternalError
          (js ''Failed to connect to Chrome DevTools at '' @ CDP_HOST b @ js '':'' @ CDP_PORT b
           @ js ''. Ensure Chrome is running with --remote-debugging-port='' @ CDP_PORT b))
      | Some targets \<Rightarrow> Inr (filter (\<lambda>t. type' t = js ''page'') targets))"

text \<open>\<open>xs.map((x, index) => f(x, index))\<close>, with the index of the first element given.\<close>

fun mapWithIndex :: "('a \<Rightarrow> nat \<Rightarrow> 'b) \<Rightarrow> nat \<Rightarrow> 'a list \<Rightarrow> 'b list" where
  "mapWithIndex f i [] = []"
| "mapWithIndex f i (x # xs) = f x i # mapWithIndex f (Suc i) xs"

text \<open>An entry of the listing is the object \<open>{index, title, url}\<close>, modelled as a triple.\<close>

definition listPages :: "browser \<Rightarrow> failure + (nat \<times> jsstring \<times> jsstring) list" where
  "listPages b =
     (case getTargets b of
        Inl e \<Rightarrow> Inl e
      | Inr targets \<Rightarrow> Inr (mapWithIndex (\<lambda>t index. (index, title t, url t)) 0 targets))"

text \<open>The decimal text of an integer, as a template literal prints it.\<close>

fun digitsOf :: "nat \<Rightarrow> jsstring" where
  "digitsOf n = (if n < 10 then [48 + int n] else digitsOf (n div 10) @ [48 + int (n mod 10)])"

declare digitsOf.simps [simp del]

definition numberToString :: "int \<Rightarrow> jsstring" where
  "numberToString i = (if i < 0 then 45 # digitsOf (nat (- i)) else digitsOf (nat i))"

text \<open>
  \<open>getHtmlContent\<close>: \<open>pageIndex\<close> is an integer, \<open>None\<close> for an omitted argument
  (default 0); an omitted or empty selector is falsy. The result is \<open>None\<close> when the
  call does not return, \<open>Some (Inl e)\<close> when it throws \<open>e\<close>.
\<close>

definition getHtmlContent ::
  "browser \<Rightarrow> int option \<Rightarrow> jsstring option \<Rightarrow> (failure + jsstring) option" where
  "getHtmlContent b pageIndexArg selector =
     (let pageIndex = (case pageIndexArg of None \<Rightarrow> 0 | Some i \<Rightarrow> i) in
      case getTargets b of
        Inl e \<Rightarrow> Some (Inl e)
      | Inr targets \<Rightarrow>
          if length targets = 0
          then Some (Inl (McpError InvalidRequest (js ''No open pages found in Chrome'')))
          else if pageIndex < 0 \<or> pageIndex \<ge> int (length targets)
          then Some (Inl (McpError InvalidRequest
                 (js ''Invalid page index. Available pages: 0-''
                  @ numberToString (int (length targets) - 1))))
          else
            let target = targets ! nat pageIndex;
                truthy = (case selector of None \<Rightarrow> False | Some sel \<Rightarrow> sel \<noteq> []);
                expression = (case selector of
                                None \<Rightarrow> DocumentOuterHTML
                              | Some sel \<Rightarrow> if sel \<noteq> [] then SelectorOuterHTML sel
                                           else DocumentOuterHTML)
            in if \<not> cdpOpen b (id' target) then Some (Inl ClientRejected)
               else case runtimeEvaluate b (id' target) expression of
                   EvaluateRejected \<Rightarrow> Some (Inl ClientRejected)
                 | Evaluated exceptionDetails val \<Rightarrow>
                     if exceptionDetails
                     then Some (Inl (McpError InternalError
                            (js ''Failed to evaluate expression in page context'')))
                     else case val of
                         None \<Rightarrow> Some (Inl (McpError InvalidRequest
                            (if truthy
                             then js ''Element not found for selector: ''
                                  @ (case selector of None \<Rightarrow> [] | Some sel \<Rightarrow> sel)
                             else js ''Failed to get HTML content'')))
                       | Some html \<Rightarrow> map_option Inr (removeUnwantedElements html))"


subsection \<open>Two scenarios of the specification\<close>

definition target :: "string \<Rightarrow> string \<Rightarrow> string \<Rightarrow> CDPTarget" where
  "target i t k =
     \<lparr>id' = js i, title = js t, url = js (''https://'' @ t), type' = js k,
      webSocketDebuggerUrl = None\<rparr>"

definition browserWith :: "CDPTarget list \<Rightarrow> browser" where
  "browserWith targets =
     \<lparr>CDP_HOST = js ''localhost'', CDP_PORT = js ''9222'', cdpList = Some targets,
      cdpOpen = (\<lambda>_. True), runtimeEvaluate = (\<lambda>_ _. Evaluated False None)\<rparr>"

text \<open>Three debugging targets of kinds page, other, page; and two page targets.\<close>

definition threeTargets :: browser where
  "threeTargets =
     browserWith [target ''1'' ''a'' ''page'', target ''2'' ''b'' ''other'',
                  target ''3'' ''c'' ''page'']"

definition twoPages :: browser where
  "twoPages = browserWith [target ''1'' ''a'' ''page'', target ''2'' ''b'' ''page'']"

section \<open>A measure that every pass of the loop decreases\<close>

text \<open>
  \<open>minlen r\<close> bounds the length of a match of \<open>r\<close> from below. \<open>mu\<close> weighs a string:
  a space counts 1, any other code unit 2, and a quote directly followed by a letter
  counts 2 more. Removing three or more code units lowers \<open>mu\<close>; so does rebuilding a
  tag, where the only growth is a space put between two attributes that touched.
\<close>

fun minlen :: "rx \<Rightarrow> nat" where
  "minlen (Atom p) = 1"
| "minlen Eps = 0"
| "minlen (Seq a b) = minlen a + minlen b"
| "minlen (Star a) = 0"
| "minlen (Lazy a) = 0"
| "minlen (Group i a) = minlen a"
| "minlen (BackrefI i) = 0"

definition weight :: "jschar \<Rightarrow> nat" where
  "weight c = (if c = 32 then 1 else 2)"

definition seam :: "jsstring \<Rightarrow> jsstring \<Rightarrow> nat" where
  "seam xs ys = (if xs \<noteq> [] \<and> ys \<noteq> [] \<and> isQuote (last xs) \<and> isLetterI (hd ys) then 2 else 0)"

fun mu :: "jsstring \<Rightarrow> nat" where
  "mu [] = 0"
| "mu (c # s) = weight c + seam [c] s + mu s"

definition shrinks :: "(jsstring \<Rightarrow> jsstring) \<Rightarrow> bool" where
  "shrinks f \<longleftrightarrow> (\<forall>s. mu (f s) \<le> mu s \<and> (f s \<noteq> s \<longrightarrow> mu (f s) < mu s))"

definition kept :: "captures \<Rightarrow> bool" where
  "kept caps \<longleftrightarrow> toLowerCase (capture caps 1) \<in> set allowedAttrs"

definition spaced :: "jsstring \<Rightarrow> jsstring" where
  "spaced t = concat (map (\<lambda>a. 32 # a) (cleanedAttrs t))"

definition firstOf :: "rx \<Rightarrow> mstate \<Rightarrow> mstate option" where
  "firstOf r st = (case ms r st of [] \<Rightarrow> None | x # _ \<Rightarrow> Some x)"

definition removalRxs :: "rx list" where
  "removalRxs =
     [headRx, scriptRx, styleRx, svgRx, imgDataRx, metaRx, dataUriRx, italicRx, inputRx]"

text \<open>The patterns of the filter that start with \<open><\<close> and delete their match.\<close>

definition ltRxs :: "rx list" where
  "ltRxs = [headRx, scriptRx, styleRx, svgRx, imgDataRx, metaRx, italicRx, inputRx,
            emptyElementRx]"

section \<open>Matches of the engine\<close>


text \<open>Every state that the matcher reaches holds a suffix of the input it started from.\<close>

lemma ms_suffix:
  "st' \<in> set (ms r st) \<Longrightarrow> \<exists>p. fst st = p @ fst st' \<and> minlen r \<le> length p"
proof (induction r st arbitrary: st' rule: ms.induct)
  case (1 p s caps)
  then show ?case by (auto split: list.splits if_splits)
next
  case (2 st)
  then show ?case by simp
next
  case (3 a b st)
  from "3.prems" obtain m where m: "m \<in> set (ms a st)" and s: "st' \<in> set (ms b m)"
    by auto
  from "3.IH"(1)[OF m] obtain p where p: "fst st = p @ fst m" "minlen a \<le> length p" by blast
  from "3.IH"(2)[OF m s] obtain q where q: "fst m = q @ fst st'" "minlen b \<le> length q" by blast
  show ?case using p q by (intro exI[of _ "p @ q"]) simp
next
  case (4 a s caps)
  from "4.prems" consider "st' = (s, caps)"
    | m where "m \<in> set (ms a (s, caps))" "length (fst m) < length s" "st' \<in> set (ms (Star a) m)"
    by (auto split: if_splits)
  then show ?case
  proof cases
    case 1
    then show ?thesis by simp
  next
    case 2
    from "4.IH"(1)[OF 2(1)] obtain p where p: "s = p @ fst m" by auto
    from "4.IH"(2)[OF 2(1) 2(2) 2(3)] obtain q where q: "fst m = q @ fst st'" by auto
    show ?thesis using p q by simp
  qed
next
  case (5 a s caps)
  from "5.prems" consider "st' = (s, caps)"
    | m where "m \<in> set (ms a (s, caps))" "length (fst m) < length s" "st' \<in> set (ms (Lazy a) m)"
    by (auto split: if_splits)
  then show ?case
  proof cases
    case 1
    then show ?thesis by simp
  next
    case 2
    from "5.IH"(1)[OF 2(1)] obtain p where p: "s = p @ fst m" by auto
    from "5.IH"(2)[OF 2(1) 2(2) 2(3)] obtain q where q: "fst m = q @ fst st'" by auto
    show ?thesis using p q by simp
  qed
next
  case (6 i a s caps)
  then show ?case by fastforce
next
  case (7 i s caps)
  then show ?case
    by (auto split: option.splits if_splits) (metis append_take_drop_id)
qed


subsection \<open>The measure and concatenation\<close>

lemma seam_Nil [simp]: "seam [] ys = 0" "seam xs [] = 0"
  by (simp_all add: seam_def)

lemma seam_le: "seam xs ys \<le> 2"
  by (simp add: seam_def)

lemma seam_Cons_Cons [simp]: "seam (c # d # xs) ys = seam (d # xs) ys"
  by (simp add: seam_def)

lemma seam_append_right [simp]: "ys \<noteq> [] \<Longrightarrow> seam xs (ys @ zs) = seam xs ys"
  by (simp add: seam_def)

lemma seam_append_left [simp]: "ys \<noteq> [] \<Longrightarrow> seam (xs @ ys) zs = seam ys zs"
  by (simp add: seam_def)

lemma mu_append: "mu (xs @ ys) = mu xs + seam xs ys + mu ys"
proof (induction xs)
  case Nil
  then show ?case by simp
next
  case (Cons c xs)
  show ?case
  proof (cases xs)
    case Nil
    then show ?thesis by simp
  next
    case (Cons d xs')
    then have "seam [c] (xs @ ys) = seam [c] xs"
      by (simp add: seam_def)
    then show ?thesis using Cons.IH Cons by simp
  qed
qed

lemma weight_pos: "1 \<le> weight c"
  by (simp add: weight_def)

lemma length_le_mu: "length xs \<le> mu xs"
proof (induction xs)
  case Nil
  then show ?case by simp
next
  case (Cons c xs)
  then show ?case using weight_pos[of c] by simp
qed

subsection \<open>Replacement never raises the measure\<close>

text \<open>
  If each single replacement of a match lowers \<open>mu\<close> in every context, or leaves the
  text as it was, then the whole scan does not raise \<open>mu\<close> and lowers it whenever it
  changes the string.
\<close>

lemma firstMatch_suffix:
  assumes "firstMatch r s = Some (rest, caps)"
  shows "\<exists>p. s = p @ rest \<and> minlen r \<le> length p"
proof -
  from assms have "(rest, caps) \<in> set (ms r (s, noCaptures))"
    by (auto simp: firstMatch_def split: list.splits)
  from ms_suffix[OF this] show ?thesis by simp
qed

lemma firstMatch_progress:
  assumes "1 \<le> minlen r" and "firstMatch r s = Some (rest, caps)"
  shows "length rest < length s"
  using firstMatch_suffix[OF assms(2)] assms(1) by auto

lemma replaceAll_mu:
  assumes local: "\<And>s rest caps pre. firstMatch r s = Some (rest, caps) \<Longrightarrow>
     length rest < length s \<and>
     mu (pre @ f (take (length s - length rest) s) caps @ rest) \<le> mu (pre @ s) \<and>
     (f (take (length s - length rest) s) caps \<noteq> take (length s - length rest) s \<longrightarrow>
        mu (pre @ f (take (length s - length rest) s) caps @ rest) < mu (pre @ s))"
  shows "mu (pre @ replaceAll r f s) \<le> mu (pre @ s) \<and>
         (replaceAll r f s \<noteq> s \<longrightarrow> mu (pre @ replaceAll r f s) < mu (pre @ s))"
proof (induction "length s" arbitrary: s pre rule: less_induct)
  case less
  show ?case
  proof (cases "firstMatch r s")
    case None
    show ?thesis
    proof (cases s)
      case Nil
      with None show ?thesis by (simp add: replaceAll.simps[of r f "[]"])
    next
      case (Cons c cs)
      have eq: "replaceAll r f s = c # replaceAll r f cs"
        using None Cons by (simp add: replaceAll.simps[of r f "c # cs"])
      have "length cs < length s" using Cons by simp
      from less[OF this, of "pre @ [c]"] show ?thesis
        using eq Cons by simp
    qed
  next
    case (Some st)
    obtain rest caps where st: "st = (rest, caps)" by (cases st)
    note fm = Some[unfolded st]
    define B where "B = take (length s - length rest) s"
    from local[OF fm, of pre] have lt: "length rest < length s"
      and le: "mu (pre @ f B caps @ rest) \<le> mu (pre @ s)"
      and strict: "f B caps \<noteq> B \<Longrightarrow> mu (pre @ f B caps @ rest) < mu (pre @ s)"
      unfolding B_def by auto
    from firstMatch_suffix[OF fm] obtain p where p: "s = p @ rest" by blast
    then have sB: "s = B @ rest" unfolding B_def by simp
    have eq: "replaceAll r f s = f B caps @ replaceAll r f rest"
      using fm lt unfolding B_def by (simp add: replaceAll.simps[of r f s])
    from less[OF lt, of "pre @ f B caps"]
    have ih: "mu (pre @ f B caps @ replaceAll r f rest) \<le> mu (pre @ f B caps @ rest)"
      and ihs: "replaceAll r f rest \<noteq> rest \<Longrightarrow>
         mu (pre @ f B caps @ replaceAll r f rest) < mu (pre @ f B caps @ rest)"
      by auto
    have "mu (pre @ replaceAll r f s) \<le> mu (pre @ s)"
      unfolding eq using ih le by simp
    moreover have "mu (pre @ replaceAll r f s) < mu (pre @ s)" if ne: "replaceAll r f s \<noteq> s"
    proof (cases "f B caps = B")
      case True
      with ne eq sB have "replaceAll r f rest \<noteq> rest" by auto
      from ihs[OF this] le show ?thesis unfolding eq by simp
    next
      case False
      from strict[OF this] ih show ?thesis unfolding eq by simp
    qed
    ultimately show ?thesis by blast
  qed
qed


text \<open>Deleting a match of three or more code units lowers \<open>mu\<close>.\<close>

lemma delete_local:
  assumes "3 \<le> minlen r" and "firstMatch r s = Some (rest, caps)"
  shows "length rest < length s \<and> mu (pre @ rest) < mu (pre @ s)"
proof -
  from firstMatch_suffix[OF assms(2)] assms(1) obtain p where p: "s = p @ rest" "3 \<le> length p"
    by auto
  have "mu (pre @ rest) \<le> mu pre + 2 + mu rest"
    using seam_le[of pre rest] by (simp add: mu_append)
  moreover have "mu pre + mu p + mu rest \<le> mu (pre @ p @ rest)"
    by (simp add: mu_append)
  moreover have "3 \<le> mu p" using length_le_mu[of p] p(2) by simp
  ultimately show ?thesis using p by auto
qed

lemma replaceAll_delete_mu:
  assumes "3 \<le> minlen r"
  shows "mu (pre @ replaceAll r (\<lambda>_ _. []) s) \<le> mu (pre @ s) \<and>
         (replaceAll r (\<lambda>_ _. []) s \<noteq> s \<longrightarrow> mu (pre @ replaceAll r (\<lambda>_ _. []) s) < mu (pre @ s))"
proof (rule replaceAll_mu)
  fix s rest caps pre
  assume "firstMatch r s = Some (rest, caps)"
  from delete_local[OF assms this, of pre]
  show "length rest < length s \<and>
     mu (pre @ [] @ rest) \<le> mu (pre @ s) \<and>
     ([] \<noteq> take (length s - length rest) s \<longrightarrow> mu (pre @ [] @ rest) < mu (pre @ s))"
    by simp
qed

lemma minlen_seqs: "minlen (seqs rs) = sum_list (map minlen rs)"
  by (induction rs) (simp_all add: seqs_def)

lemma minlen_lit [simp]: "minlen (lit cs) = length cs" "minlen (litI cs) = length cs"
  by (simp_all add: lit_def litI_def minlen_seqs comp_def sum_list_triv)

lemma minlen_regexes:
  "3 \<le> minlen headRx" "3 \<le> minlen scriptRx" "3 \<le> minlen styleRx" "3 \<le> minlen svgRx"
  "3 \<le> minlen imgDataRx" "3 \<le> minlen metaRx" "3 \<le> minlen dataUriRx" "3 \<le> minlen italicRx"
  "3 \<le> minlen inputRx" "3 \<le> minlen emptyElementRx"
  by (simp_all add: headRx_def scriptRx_def styleRx_def svgRx_def imgDataRx_def metaRx_def
      dataUriRx_def italicRx_def inputRx_def emptyElementRx_def elementRx_def tagRx_def
      PlusRx_def minlen_seqs)


lemma patterns_consume:
  "1 \<le> minlen openTagRx" "1 \<le> minlen attrRegex" "1 \<le> minlen betweenTagsRx"
  by (simp_all add: openTagRx_def attrRegex_def betweenTagsRx_def PlusRx_def minlen_seqs)

subsection \<open>The shape of the matches\<close>

lemma cu_values [simp]:
  "cu CHR ''<'' = 60" "cu CHR ''>'' = 62" "cu CHR ''='' = 61" "cu CHR ''-'' = 45"
  "cu CHR ''/'' = 47" "cu CHR '' '' = 32"
  by (simp_all add: cu_def)

lemma ms_Atom_iff:
  "st' \<in> set (ms (Atom p) (s, c)) \<longleftrightarrow> (\<exists>x. s = x # fst st' \<and> p x \<and> snd st' = c)"
  by (cases s) (auto split: if_splits)

lemma ms_Seq_iff:
  "st' \<in> set (ms (Seq a b) st) \<longleftrightarrow> (\<exists>m\<in>set (ms a st). st' \<in> set (ms b m))"
  by auto

lemma seqs_simps [simp]: "seqs [] = Eps" "seqs (r # rs) = Seq r (seqs rs)"
  by (simp_all add: seqs_def)

lemma ms_Star_Atom:
  "st' \<in> set (ms (Star (Atom p)) st) \<Longrightarrow>
     \<exists>w. fst st = w @ fst st' \<and> (\<forall>x\<in>set w. p x) \<and> snd st' = snd st"
proof (induction "length (fst st)" arbitrary: st rule: less_induct)
  case less
  obtain s c where st: "st = (s, c)" by (cases st)
  from less.prems[unfolded st] consider "st' = (s, c)"
    | m where "m \<in> set (ms (Atom p) (s, c))" "length (fst m) < length s"
        "st' \<in> set (ms (Star (Atom p)) m)"
    by (auto split: if_splits list.splits)
  then show ?case
  proof cases
    case 1
    then show ?thesis using st by simp
  next
    case 2
    from 2(1) obtain x where x: "s = x # fst m" "p x" "snd m = c"
      unfolding ms_Atom_iff by blast
    from less.hyps[OF _ 2(3)] 2(2) st obtain w where
      w: "fst m = w @ fst st'" "\<forall>x\<in>set w. p x" "snd st' = snd m"
      by auto
    show ?thesis using x w st by (intro exI[of _ "x # w"]) simp
  qed
qed

lemma ms_PlusRx_Atom:
  assumes "st' \<in> set (ms (PlusRx (Atom p)) st)"
  shows "\<exists>w. w \<noteq> [] \<and> fst st = w @ fst st' \<and> (\<forall>x\<in>set w. p x) \<and> snd st' = snd st"
proof -
  obtain s c where st: "st = (s, c)" by (cases st)
  from assms obtain m where m: "m \<in> set (ms (Atom p) (s, c))" "st' \<in> set (ms (Star (Atom p)) m)"
    unfolding PlusRx_def ms_Seq_iff st by blast
  from m(1) obtain x where x: "s = x # fst m" "p x" "snd m = c"
    unfolding ms_Atom_iff by blast
  from ms_Star_Atom[OF m(2)] obtain w where
    w: "fst m = w @ fst st'" "\<forall>x\<in>set w. p x" "snd st' = snd m" by blast
  show ?thesis using x w st by (intro exI[of _ "x # w"]) simp
qed

lemma ms_Eps_iff: "st' \<in> set (ms Eps st) \<longleftrightarrow> st' = st"
  by simp

lemma ms_Group:
  assumes "st' \<in> set (ms (Group i a) (s, c))"
  shows "\<exists>s1 c1. (s1, c1) \<in> set (ms a (s, c)) \<and>
           st' = (s1, c1(i \<mapsto> take (length s - length s1) s))"
  using assms by auto

declare ms.simps [simp del]

lemma firstMatch_mem:
  "firstMatch r s = Some st \<Longrightarrow> st \<in> set (ms r (s, noCaptures))"
  by (auto simp: firstMatch_def split: list.splits)

text \<open>A match of \<^verbatim>\<open>/>\s+</\<close> is \<open>>\<close>, white space, \<open><\<close>.\<close>

lemma betweenTags_match:
  assumes "firstMatch betweenTagsRx s = Some (rest, caps)"
  shows "\<exists>w. w \<noteq> [] \<and> s = 62 # w @ 60 # rest"
proof -
  from firstMatch_mem[OF assms]
  obtain m1 m2 where m1: "m1 \<in> set (ms (Atom (isChar CHR ''>'')) (s, noCaptures))"
    and m2: "m2 \<in> set (ms (PlusRx (Atom isSpace)) m1)"
    and m3: "(rest, caps) \<in> set (ms (Atom (isChar CHR ''<'')) m2)"
    unfolding betweenTagsRx_def seqs_simps ms_Seq_iff ms_Eps_iff by blast
  from m1 have s: "s = 62 # fst m1"
    unfolding ms_Atom_iff by (auto simp: isChar_def)
  from ms_PlusRx_Atom[OF m2] obtain w where w: "w \<noteq> []" "fst m1 = w @ fst m2" by blast
  from m3 have "fst m2 = 60 # rest"
    by (cases m2) (auto simp: ms_Atom_iff isChar_def)
  with s w show ?thesis by auto
qed

lemma not_quote_simps [simp]: "\<not> isQuote 62" "\<not> isQuote 60" "\<not> isQuote 32"
  by (simp_all add: isQuote_def)

lemma not_letter_simps [simp]: "\<not> isLetterI 62" "\<not> isLetterI 60" "\<not> isLetterI 32"
  by (simp_all add: isLetterI_def canonicalize_def)

lemma seam_not_quote: "\<not> isQuote (last xs) \<Longrightarrow> seam xs ys = 0"
  by (simp add: seam_def)

lemma seam_not_letter: "\<not> isLetterI (hd ys) \<Longrightarrow> seam xs ys = 0"
  by (simp add: seam_def)

lemma betweenTags_local:
  assumes fm: "firstMatch betweenTagsRx s = Some (rest, caps)"
  shows "length rest < length s \<and> mu (pre @ js ''><'' @ rest) < mu (pre @ s)"
proof -
  from betweenTags_match[OF fm] obtain w where w: "w \<noteq> []" "s = 62 # w @ 60 # rest" by blast
  have lt: "length rest < length s" using w by simp
  have "mu ((pre @ [62]) @ ([60] @ rest)) < mu ((pre @ [62]) @ w @ ([60] @ rest))"
  proof -
    have "seam (pre @ [62]) ys = 0" for ys
      by (rule seam_not_quote) simp
    moreover have "1 \<le> mu w" using length_le_mu[of w] w(1) by (cases w) simp_all
    ultimately show ?thesis
      unfolding mu_append[of "pre @ [62]"] mu_append[of w] by simp
  qed
  then have "mu (pre @ js ''><'' @ rest) < mu (pre @ s)"
    using w by (simp add: js_def)
  with lt show ?thesis by simp
qed

lemma collapseBetweenTags_mu:
  "mu (pre @ collapseBetweenTags s) \<le> mu (pre @ s) \<and>
   (collapseBetweenTags s \<noteq> s \<longrightarrow> mu (pre @ collapseBetweenTags s) < mu (pre @ s))"
  unfolding collapseBetweenTags_def
proof (rule replaceAll_mu)
  fix s rest caps pre
  assume fm: "firstMatch betweenTagsRx s = Some (rest, caps)"
  from betweenTags_local[OF fm, of pre]
  show "length rest < length s \<and>
     mu (pre @ js ''><'' @ rest) \<le> mu (pre @ s) \<and>
     (js ''><'' \<noteq> take (length s - length rest) s \<longrightarrow> mu (pre @ js ''><'' @ rest) < mu (pre @ s))"
    by simp
qed

lemma letter_not_quote: "isLetterI c \<Longrightarrow> \<not> isQuote c"
  by (auto simp: isLetterI_def isQuote_def canonicalize_def split: if_splits)

lemma digit_not_quote: "isDigit c \<Longrightarrow> \<not> isQuote c"
  by (auto simp: isDigit_def isQuote_def)

lemma space_not_quote: "isSpace c \<Longrightarrow> \<not> isQuote c"
  by (auto simp: isSpace_def isQuote_def)

text \<open>
  A match of the tag pattern is \<open><\<close>, the name, white space, the attributes and
  \<open>>\<close>, with the name and the attributes in the two captures.
\<close>

lemma openTag_match:
  assumes "firstMatch openTagRx s = Some (rest, caps)"
  shows "\<exists>tag wsp attrs. s = 60 # tag @ wsp @ attrs @ 62 # rest \<and> caps 1 = Some tag \<and>
           caps 2 = Some attrs \<and> (\<forall>c\<in>set tag. \<not> isQuote c) \<and> wsp \<noteq> [] \<and>
           (\<forall>c\<in>set wsp. isSpace c)"
proof -
  let ?name = "Seq (Atom isLetterI) (Star (Atom (\<lambda>c. isLetterI c \<or> isDigit c)))"
  from firstMatch_mem[OF assms]
  obtain m1 m2 m3 m4 where m1: "m1 \<in> set (ms (Atom (isChar CHR ''<'')) (s, noCaptures))"
    and m2: "m2 \<in> set (ms (Group 1 ?name) m1)"
    and m3: "m3 \<in> set (ms (PlusRx (Atom isSpace)) m2)"
    and m4: "m4 \<in> set (ms (Group 2 (Star (Atom (\<lambda>c. \<not> isChar CHR ''>'' c)))) m3)"
    and m5: "(rest, caps) \<in> set (ms (Atom (isChar CHR ''>'')) m4)"
    unfolding openTagRx_def seqs_simps ms_Seq_iff ms_Eps_iff by blast
  obtain s1 c1 where m1': "m1 = (s1, c1)" by (cases m1)
  from m1 have s: "s = 60 # s1" and c1: "c1 = noCaptures"
    unfolding ms_Atom_iff m1' by (auto simp: isChar_def)
  from ms_Group[OF m2[unfolded m1']] obtain s2 c2 where
    n: "(s2, c2) \<in> set (ms ?name (s1, c1))" and
    m2': "m2 = (s2, c2(1 \<mapsto> take (length s1 - length s2) s1))" by blast
  from n obtain k where k: "k \<in> set (ms (Atom isLetterI) (s1, c1))"
    and k2: "(s2, c2) \<in> set (ms (Star (Atom (\<lambda>c. isLetterI c \<or> isDigit c))) k)"
    unfolding ms_Seq_iff by blast
  from k obtain x where x: "s1 = x # fst k" "isLetterI x"
    unfolding ms_Atom_iff by blast
  from ms_Star_Atom[OF k2] obtain w where w: "fst k = w @ s2" "\<forall>c\<in>set w. isLetterI c \<or> isDigit c"
    by auto
  define tag where "tag = x # w"
  have s1: "s1 = tag @ s2" using x w by (simp add: tag_def)
  have tagq: "\<forall>c\<in>set tag. \<not> isQuote c"
    using x(2) w(2) letter_not_quote digit_not_quote by (auto simp: tag_def)
  have cap1: "snd m2 1 = Some tag" using m2' s1 by simp
  from ms_PlusRx_Atom[OF m3] obtain wsp where wsp: "wsp \<noteq> []" "fst m2 = wsp @ fst m3"
    "\<forall>c\<in>set wsp. isSpace c" "snd m3 = snd m2" by blast
  obtain s3 c3 where m3': "m3 = (s3, c3)" by (cases m3)
  from ms_Group[OF m4[unfolded m3']] obtain s4 c4 where
    a: "(s4, c4) \<in> set (ms (Star (Atom (\<lambda>c. \<not> isChar CHR ''>'' c))) (s3, c3))" and
    m4': "m4 = (s4, c4(2 \<mapsto> take (length s3 - length s4) s3))" by blast
  from ms_Star_Atom[OF a] obtain attrs where attrs: "s3 = attrs @ s4" "c4 = c3" by auto
  from m5 have r: "s4 = 62 # rest" "caps = c4(2 \<mapsto> take (length s3 - length s4) s3)"
    unfolding m4' ms_Atom_iff by (auto simp: isChar_def)
  have "caps 2 = Some attrs" using r(2) attrs by simp
  moreover have "caps 1 = Some tag" using r(2) attrs(2) wsp(4) cap1 m3' by simp
  moreover have "s = 60 # tag @ wsp @ attrs @ 62 # rest"
    using s s1 wsp(2) m2' m3' attrs(1) r(1) by simp
  ultimately show ?thesis using tagq wsp(1,3) by blast
qed

text \<open>A match of \<open>attrRegex\<close> starts with a letter and ends with a quote.\<close>

lemma attr_match:
  assumes "firstMatch attrRegex t = Some (rest, caps)"
  shows "\<exists>a. t = a @ rest \<and> 4 \<le> length a \<and> isLetterI (hd a) \<and> isQuote (last a)"
proof -
  let ?name = "Seq (Atom isLetterI)
                   (Star (Atom (\<lambda>c. isLetterI c \<or> isDigit c \<or> isChar CHR ''-'' c)))"
  let ?mid = "seqs [Star (Atom isSpace), Atom (isChar CHR ''=''), Star (Atom isSpace),
           Atom isQuote, Group 2 (Star (Atom (\<lambda>c. \<not> isQuote c)))]"
  have rx: "attrRegex = Seq (Group 1 ?name) (seqs [Star (Atom isSpace), Atom (isChar CHR ''=''),
      Star (Atom isSpace), Atom isQuote, Group 2 (Star (Atom (\<lambda>c. \<not> isQuote c))), Atom isQuote])"
    by (simp add: attrRegex_def)
  from firstMatch_mem[OF assms]
  obtain m1 m2 m3 m4 m5 m6 where m1: "m1 \<in> set (ms (Group 1 ?name) (t, noCaptures))"
    and m2: "m2 \<in> set (ms (Star (Atom isSpace)) m1)"
    and m3: "m3 \<in> set (ms (Atom (isChar CHR ''='')) m2)"
    and m4: "m4 \<in> set (ms (Star (Atom isSpace)) m3)"
    and m5: "m5 \<in> set (ms (Atom isQuote) m4)"
    and m6: "m6 \<in> set (ms (Group 2 (Star (Atom (\<lambda>c. \<not> isQuote c)))) m5)"
    and m7: "(rest, caps) \<in> set (ms (Atom isQuote) m6)"
    unfolding attrRegex_def seqs_simps ms_Seq_iff ms_Eps_iff by blast
  from ms_Group[OF m1] obtain s1 c1 where n: "(s1, c1) \<in> set (ms ?name (t, noCaptures))"
    and m1': "fst m1 = s1" by auto
  from n obtain k where k: "k \<in> set (ms (Atom isLetterI) (t, noCaptures))"
    unfolding ms_Seq_iff by blast
  then obtain x where x: "t = x # fst k" "isLetterI x"
    unfolding ms_Atom_iff by blast
  from ms_suffix[OF m1] obtain p1 where p1: "t = p1 @ fst m1" "1 \<le> length p1" by auto
  from ms_suffix[OF m2] obtain p2 where p2: "fst m1 = p2 @ fst m2" by auto
  from ms_suffix[OF m3] obtain p3 where p3: "fst m2 = p3 @ fst m3" "1 \<le> length p3" by auto
  from ms_suffix[OF m4] obtain p4 where p4: "fst m3 = p4 @ fst m4" by auto
  from ms_suffix[OF m5] obtain p5 where p5: "fst m4 = p5 @ fst m5" "1 \<le> length p5" by auto
  from ms_suffix[OF m6] obtain p6 where p6: "fst m5 = p6 @ fst m6" by auto
  from m7 obtain q where q: "fst m6 = q # rest" "isQuote q"
    by (cases m6) (auto simp: ms_Atom_iff)
  define a where "a = p1 @ p2 @ p3 @ p4 @ p5 @ p6 @ [q]"
  have "t = a @ rest" using p1 p2 p3 p4 p5 p6 q by (simp add: a_def)
  moreover have "4 \<le> length a" using p1(2) p3(2) p5(2) by (simp add: a_def)
  moreover have "hd a = x" using x(1) p1 by (cases p1) (auto simp: a_def)
  moreover have "last a = q" by (simp add: a_def)
  ultimately show ?thesis using x(2) q(2) by blast
qed


text \<open>
  The same two shapes in full: the name, the white space and the attribute text of a
  tag, and the name, the white space around \<open>=\<close>, the quotes and the value of an
  attribute.
\<close>

lemma openTag_shape:
  assumes "firstMatch openTagRx s = Some (rest, caps)"
  shows "\<exists>tag wsp attrs. s = 60 # tag @ wsp @ attrs @ 62 # rest \<and> caps 1 = Some tag \<and>
           caps 2 = Some attrs \<and> isTagName tag \<and> wsp \<noteq> [] \<and> isBlank wsp \<and> 62 \<notin> set attrs"
proof -
  let ?name = "Seq (Atom isLetterI) (Star (Atom (\<lambda>c. isLetterI c \<or> isDigit c)))"
  from firstMatch_mem[OF assms]
  obtain m1 m2 m3 m4 where m1: "m1 \<in> set (ms (Atom (isChar CHR ''<'')) (s, noCaptures))"
    and m2: "m2 \<in> set (ms (Group 1 ?name) m1)"
    and m3: "m3 \<in> set (ms (PlusRx (Atom isSpace)) m2)"
    and m4: "m4 \<in> set (ms (Group 2 (Star (Atom (\<lambda>c. \<not> isChar CHR ''>'' c)))) m3)"
    and m5: "(rest, caps) \<in> set (ms (Atom (isChar CHR ''>'')) m4)"
    unfolding openTagRx_def seqs_simps ms_Seq_iff ms_Eps_iff by blast
  obtain s1 c1 where m1': "m1 = (s1, c1)" by (cases m1)
  from m1 have s: "s = 60 # s1" and c1: "c1 = noCaptures"
    unfolding ms_Atom_iff m1' by (auto simp: isChar_def)
  from ms_Group[OF m2[unfolded m1']] obtain s2 c2 where
    n: "(s2, c2) \<in> set (ms ?name (s1, c1))" and
    m2': "m2 = (s2, c2(1 \<mapsto> take (length s1 - length s2) s1))" by blast
  from n obtain k where k: "k \<in> set (ms (Atom isLetterI) (s1, c1))"
    and k2: "(s2, c2) \<in> set (ms (Star (Atom (\<lambda>c. isLetterI c \<or> isDigit c))) k)"
    unfolding ms_Seq_iff by blast
  from k obtain x where x: "s1 = x # fst k" "isLetterI x"
    unfolding ms_Atom_iff by blast
  from ms_Star_Atom[OF k2] obtain w where w: "fst k = w @ s2" "\<forall>c\<in>set w. isLetterI c \<or> isDigit c"
    by auto
  define tag where "tag = x # w"
  have s1: "s1 = tag @ s2" using x w by (simp add: tag_def)
  have tagn: "isTagName tag"
    using x(2) w(2) by (simp add: tag_def isTagName_def list_all_iff)
  have cap1: "snd m2 1 = Some tag" using m2' s1 by simp
  from ms_PlusRx_Atom[OF m3] obtain wsp where wsp: "wsp \<noteq> []" "fst m2 = wsp @ fst m3"
    "\<forall>c\<in>set wsp. isSpace c" "snd m3 = snd m2" by blast
  obtain s3 c3 where m3': "m3 = (s3, c3)" by (cases m3)
  from ms_Group[OF m4[unfolded m3']] obtain s4 c4 where
    a: "(s4, c4) \<in> set (ms (Star (Atom (\<lambda>c. \<not> isChar CHR ''>'' c))) (s3, c3))" and
    m4': "m4 = (s4, c4(2 \<mapsto> take (length s3 - length s4) s3))" by blast
  from ms_Star_Atom[OF a] obtain attrs where attrs: "s3 = attrs @ s4" "c4 = c3"
    "\<forall>c\<in>set attrs. \<not> isChar CHR ''>'' c" by auto
  from m5 have r: "s4 = 62 # rest" "caps = c4(2 \<mapsto> take (length s3 - length s4) s3)"
    unfolding m4' ms_Atom_iff by (auto simp: isChar_def)
  have "caps 2 = Some attrs" using r(2) attrs by simp
  moreover have "caps 1 = Some tag" using r(2) attrs(2) wsp(4) cap1 m3' by simp
  moreover have "s = 60 # tag @ wsp @ attrs @ 62 # rest"
    using s s1 wsp(2) m2' m3' attrs(1) r(1) by simp
  moreover have "62 \<notin> set attrs" using attrs(3) by (auto simp: isChar_def)
  moreover have "isBlank wsp" using wsp(3) by (simp add: isBlank_def list_all_iff)
  ultimately show ?thesis using tagn wsp(1) by blast
qed

lemma attr_shape:
  assumes "firstMatch attrRegex t = Some (rest, caps)"
  shows "\<exists>name w1 w2 q1 v q2. t = name @ w1 @ 61 # w2 @ q1 # v @ q2 # rest \<and>
           caps 1 = Some name \<and> caps 2 = Some v \<and> isAttrName name \<and> isBlank w1 \<and> isBlank w2 \<and>
           isQuote q1 \<and> isQuote q2 \<and> list_all (\<lambda>c. \<not> isQuote c) v"
proof -
  let ?name = "Seq (Atom isLetterI)
                   (Star (Atom (\<lambda>c. isLetterI c \<or> isDigit c \<or> isChar CHR ''-'' c)))"
  from firstMatch_mem[OF assms]
  obtain m1 m2 m3 m4 m5 m6 where m1: "m1 \<in> set (ms (Group 1 ?name) (t, noCaptures))"
    and m2: "m2 \<in> set (ms (Star (Atom isSpace)) m1)"
    and m3: "m3 \<in> set (ms (Atom (isChar CHR ''='')) m2)"
    and m4: "m4 \<in> set (ms (Star (Atom isSpace)) m3)"
    and m5: "m5 \<in> set (ms (Atom isQuote) m4)"
    and m6: "m6 \<in> set (ms (Group 2 (Star (Atom (\<lambda>c. \<not> isQuote c)))) m5)"
    and m7: "(rest, caps) \<in> set (ms (Atom isQuote) m6)"
    unfolding attrRegex_def seqs_simps ms_Seq_iff ms_Eps_iff by blast
  from ms_Group[OF m1] obtain s1 c1 where n: "(s1, c1) \<in> set (ms ?name (t, noCaptures))"
    and m1': "m1 = (s1, c1(1 \<mapsto> take (length t - length s1) t))" by blast
  from n obtain k where k: "k \<in> set (ms (Atom isLetterI) (t, noCaptures))"
    and k2: "(s1, c1) \<in> set (ms (Star (Atom (\<lambda>c. isLetterI c \<or> isDigit c \<or> isChar CHR ''-'' c))) k)"
    unfolding ms_Seq_iff by blast
  from k obtain x where x: "t = x # fst k" "isLetterI x"
    unfolding ms_Atom_iff by blast
  from ms_Star_Atom[OF k2] obtain w where w: "fst k = w @ s1"
    "\<forall>c\<in>set w. isLetterI c \<or> isDigit c \<or> isChar CHR ''-'' c"
    by auto
  define name where "name = x # w"
  have t: "t = name @ s1" using x w by (simp add: name_def)
  have nm: "isAttrName name"
    using x(2) w(2) by (simp add: name_def isAttrName_def list_all_iff)
  have cap1: "snd m1 1 = Some name" using m1' t by simp
  from ms_Star_Atom[OF m2] obtain w1 where w1: "fst m1 = w1 @ fst m2" "\<forall>c\<in>set w1. isSpace c"
    "snd m2 = snd m1" by blast
  from m3 have e: "fst m2 = 61 # fst m3" "snd m3 = snd m2"
    by (cases m2; auto simp: ms_Atom_iff isChar_def)+
  from ms_Star_Atom[OF m4] obtain w2 where w2: "fst m3 = w2 @ fst m4" "\<forall>c\<in>set w2. isSpace c"
    "snd m4 = snd m3" by blast
  from m5 obtain q1 where q1: "fst m4 = q1 # fst m5" "isQuote q1" "snd m5 = snd m4"
    by (cases m4) (auto simp: ms_Atom_iff)
  obtain s5 c5 where m5': "m5 = (s5, c5)" by (cases m5)
  from ms_Group[OF m6[unfolded m5']] obtain s6 c6 where
    a: "(s6, c6) \<in> set (ms (Star (Atom (\<lambda>c. \<not> isQuote c))) (s5, c5))" and
    m6': "m6 = (s6, c6(2 \<mapsto> take (length s5 - length s6) s5))" by blast
  from ms_Star_Atom[OF a] obtain v where v: "s5 = v @ s6" "c6 = c5" "\<forall>c\<in>set v. \<not> isQuote c"
    by auto
  from m7 obtain q2 where q2: "s6 = q2 # rest" "isQuote q2"
    "caps = c6(2 \<mapsto> take (length s5 - length s6) s5)"
    unfolding m6' ms_Atom_iff by auto
  have "caps 2 = Some v" using q2(3) v by simp
  moreover have "caps 1 = Some name"
    using q2(3) v(2) m5' q1(3) w2(3) e(2) w1(3) cap1 by simp
  moreover have "t = name @ w1 @ 61 # w2 @ q1 # v @ q2 # rest"
    using t m1' w1(1) e(1) w2(1) q1(1) m5' v(1) q2(1) by simp
  moreover have "isBlank w1" "isBlank w2" "list_all (\<lambda>c. \<not> isQuote c) v"
    using w1(2) w2(2) v(3) by (simp_all add: isBlank_def list_all_iff)
  ultimately show ?thesis using nm q1(2) q2(2) by blast
qed


subsection \<open>Rebuilding a tag does not raise the measure\<close>

text \<open>
  \<open>spaced t\<close> is what the callback puts behind the tag name: each kept attribute with
  a space in front. Along the scan of the attributes, \<open>mu\<close> of the rebuilt text is at
  most \<open>mu\<close> of a space and the attributes as written, with equality only when they
  are the same text: a space that the callback adds either replaces at least one code
  unit or parts a quote from a letter.
\<close>

lemma cleanedAttrs_Nil: "cleanedAttrs [] = []"
proof -
  have "firstMatch attrRegex [] = None"
  proof (cases "firstMatch attrRegex []")
    case (Some st)
    then show ?thesis using attr_match[of "[]" "fst st" "snd st"] by auto
  qed simp
  then show ?thesis by (simp add: cleanedAttrs_def execAll.simps[of _ "[]"])
qed

lemma cleanedAttrs_skip:
  "firstMatch attrRegex (c # cs) = None \<Longrightarrow> cleanedAttrs (c # cs) = cleanedAttrs cs"
  by (simp add: cleanedAttrs_def execAll.simps[of _ "c # cs"])

lemma cleanedAttrs_match:
  assumes "firstMatch attrRegex t = Some (rest, caps)" and "t = a @ rest" and "a \<noteq> []"
  shows "cleanedAttrs t = (if kept caps then [a] else []) @ cleanedAttrs rest"
  using assms by (simp add: cleanedAttrs_def execAll.simps[of _ "a @ rest"] kept_def)

lemma join_spaced:
  "(if length cl > 0 then js '' '' @ join (js '' '') cl else []) = concat (map (\<lambda>a. 32 # a) cl)"
  by (induction "js '' ''" cl rule: join.induct) (simp_all add: js_def)

lemma hd_spaced: "\<not> isLetterI (hd (spaced t @ [62]))"
  by (cases "cleanedAttrs t") (simp_all add: spaced_def)

lemma attrs_measure:
  "mu (spaced t @ [62]) \<le> Suc (mu (t @ [62])) \<and>
   (mu (spaced t @ [62]) = Suc (mu (t @ [62])) \<longrightarrow> spaced t = 32 # t) \<and>
   ((\<forall>rest caps. firstMatch attrRegex t = Some (rest, caps) \<longrightarrow> \<not> kept caps) \<longrightarrow>
      mu (spaced t @ [62]) \<le> mu (t @ [62]) \<and>
      (mu (spaced t @ [62]) = mu (t @ [62]) \<longrightarrow> spaced t = t))"
proof (induction "length t" arbitrary: t rule: less_induct)
  case less
  show ?case
  proof (cases "firstMatch attrRegex t")
    case None
    show ?thesis
    proof (cases t)
      case Nil
      then show ?thesis by (simp add: spaced_def cleanedAttrs_Nil)
    next
      case (Cons c cs)
      have sp: "spaced t = spaced cs"
        using None Cons by (simp add: spaced_def cleanedAttrs_skip)
      have "length cs < length t" using Cons by simp
      note ih = less[OF this]
      have O: "mu (t @ [62]) = weight c + seam [c] (cs @ [62]) + mu (cs @ [62])"
        using Cons by simp
      have le: "mu (spaced t @ [62]) \<le> mu (t @ [62])"
        using ih weight_pos[of c] unfolding sp O by linarith
      moreover have "spaced t = t" if eq: "mu (spaced t @ [62]) = mu (t @ [62])"
      proof -
        from eq ih weight_pos[of c] have w: "weight c = 1"
          and e: "mu (spaced cs @ [62]) = Suc (mu (cs @ [62]))"
          unfolding sp O by linarith+
        from w have "c = 32" by (simp add: weight_def split: if_splits)
        moreover from e ih have "spaced cs = 32 # cs" by blast
        ultimately show ?thesis using sp Cons by simp
      qed
      ultimately show ?thesis by auto
    qed
  next
    case (Some st)
    obtain rest caps where st: "st = (rest, caps)" by (cases st)
    note fm = Some[unfolded st]
    from attr_match[OF fm] obtain a where a: "t = a @ rest" "4 \<le> length a"
      "isLetterI (hd a)" "isQuote (last a)" by blast
    from a(2) have ane: "a \<noteq> []" by auto
    have "length rest < length t" using a(1) ane by simp
    note ih = less[OF this]
    have O: "mu (t @ [62]) = mu a + seam a (rest @ [62]) + mu (rest @ [62])"
      using a(1) by (simp add: mu_append)
    show ?thesis
    proof (cases "kept caps")
      case False
      have sp: "spaced t = spaced rest"
        using cleanedAttrs_match[OF fm a(1) ane] False by (simp add: spaced_def)
      have "mu (spaced t @ [62]) < mu (t @ [62])"
        using ih length_le_mu[of a] a(2) unfolding sp O by linarith
      then show ?thesis by simp
    next
      case True
      have sp: "spaced t = 32 # a @ spaced rest"
        using cleanedAttrs_match[OF fm a(1) ane] True by (simp add: spaced_def)
      have "mu (spaced t @ [62]) = Suc (mu (a @ (spaced rest @ [62])))"
        unfolding sp by (simp add: weight_def seam_not_quote)
      also have "\<dots> = Suc (mu a + mu (spaced rest @ [62]))"
        using seam_not_letter[OF hd_spaced, of a rest] by (simp add: mu_append[of a])
      finally have N: "mu (spaced t @ [62]) = Suc (mu a + mu (spaced rest @ [62]))" .
      show ?thesis
      proof (cases "\<exists>rest' caps'. firstMatch attrRegex rest = Some (rest', caps') \<and> kept caps'")
        case True
        then obtain rest' caps' where fm': "firstMatch attrRegex rest = Some (rest', caps')"
          by blast
        from attr_match[OF fm'] obtain a' where a': "rest = a' @ rest'" "4 \<le> length a'"
          "isLetterI (hd a')" by blast
        then have "hd (rest @ [62]) = hd a'" by (cases a') auto
        then have "seam a (rest @ [62]) = 2"
          using a(4) a'(3) ane by (simp add: seam_def)
        then have "mu (spaced t @ [62]) < Suc (mu (t @ [62]))"
          using ih unfolding N O by linarith
        then show ?thesis using fm \<open>kept caps\<close> by auto
      next
        case False
        with ih have r: "mu (spaced rest @ [62]) \<le> mu (rest @ [62])"
          and re: "mu (spaced rest @ [62]) = mu (rest @ [62]) \<Longrightarrow> spaced rest = rest"
          by blast+
        have "mu (spaced t @ [62]) \<le> Suc (mu (t @ [62]))"
          using r unfolding N O by linarith
        moreover have "spaced t = 32 # t" if "mu (spaced t @ [62]) = Suc (mu (t @ [62]))"
        proof -
          from that r have "mu (spaced rest @ [62]) = mu (rest @ [62])"
            unfolding N O by linarith
          from re[OF this] show ?thesis using sp a(1) by simp
        qed
        ultimately show ?thesis using fm \<open>kept caps\<close> by auto
      qed
    qed
  qed
qed


lemma mu_le_1: "xs \<noteq> [] \<Longrightarrow> mu xs \<le> 1 \<Longrightarrow> xs = [32]"
proof (cases xs)
  case (Cons c cs)
  assume "mu xs \<le> 1"
  then have "weight c + seam [c] cs + mu cs \<le> 1" using Cons by simp
  with weight_pos[of c] length_le_mu[of cs] have "weight c = 1" "length cs = 0"
    by linarith+
  then show ?thesis using Cons by (simp add: weight_def split: if_splits)
qed simp

lemma rebuildTag_eq:
  assumes "caps 1 = Some tag" "caps 2 = Some attrs"
  shows "rebuildTag B caps = 60 # tag @ spaced attrs @ [62]"
proof -
  have "js ''<'' = [60]" "js ''>'' = [62]" by (simp_all add: js_def)
  then show ?thesis
    using assms join_spaced[of "cleanedAttrs attrs"]
    by (simp add: rebuildTag_def capture_def spaced_def Let_def)
qed

text \<open>
  Rebuilding one tag, in any context, does not raise \<open>mu\<close>, and lowers it unless the
  rebuilt tag is the tag as written.
\<close>

lemma rebuildTag_local:
  assumes fm: "firstMatch openTagRx s = Some (rest, caps)"
  shows "length rest < length s \<and>
     mu (pre @ rebuildTag (take (length s - length rest) s) caps @ rest) \<le> mu (pre @ s) \<and>
     (rebuildTag (take (length s - length rest) s) caps \<noteq> take (length s - length rest) s \<longrightarrow>
        mu (pre @ rebuildTag (take (length s - length rest) s) caps @ rest) < mu (pre @ s))"
proof -
  from openTag_match[OF fm] obtain tag wsp attrs where
    s: "s = 60 # tag @ wsp @ attrs @ 62 # rest" and c: "caps 1 = Some tag" "caps 2 = Some attrs"
    and tq: "\<forall>c\<in>set tag. \<not> isQuote c" and w: "wsp \<noteq> []" "\<forall>c\<in>set wsp. isSpace c"
    by blast
  define B where "B = take (length s - length rest) s"
  have B: "B = 60 # tag @ wsp @ attrs @ [62]" unfolding B_def s by simp
  define X where "X = pre @ 60 # tag"
  have lastX: "\<not> isQuote (last X)" using tq by (cases tag rule: rev_cases) (auto simp: X_def)
  have lastw: "\<not> isQuote (last wsp)" using w space_not_quote by auto
  have new: "mu (pre @ rebuildTag B caps @ rest) = mu X + mu (spaced attrs @ [62]) + mu rest"
  proof -
    have e: "pre @ rebuildTag B caps @ rest = X @ ((spaced attrs @ [62]) @ rest)"
      by (simp add: rebuildTag_eq[OF c] X_def)
    have "mu (pre @ rebuildTag B caps @ rest) = mu (X @ ((spaced attrs @ [62]) @ rest))"
      by (simp only: e)
    then show ?thesis
      using mu_append[of X "(spaced attrs @ [62]) @ rest"] mu_append[of "spaced attrs @ [62]" rest]
        seam_not_quote[OF lastX, of "(spaced attrs @ [62]) @ rest"]
        seam_not_quote[of "spaced attrs @ [62]" rest]
      by simp
  qed
  have old: "mu (pre @ s) = mu X + mu wsp + mu (attrs @ [62]) + mu rest"
  proof -
    have e: "pre @ s = X @ (wsp @ ((attrs @ [62]) @ rest))"
      by (simp add: s X_def)
    have "mu (pre @ s) = mu (X @ (wsp @ ((attrs @ [62]) @ rest)))"
      by (simp only: e)
    then show ?thesis
      using mu_append[of X "wsp @ ((attrs @ [62]) @ rest)"] mu_append[of wsp "(attrs @ [62]) @ rest"]
        mu_append[of "attrs @ [62]" rest]
        seam_not_quote[OF lastX, of "wsp @ ((attrs @ [62]) @ rest)"]
        seam_not_quote[OF lastw, of "(attrs @ [62]) @ rest"]
        seam_not_quote[of "attrs @ [62]" rest]
      by simp
  qed
  have w1: "1 \<le> mu wsp" using length_le_mu[of wsp] w(1) by (cases wsp) simp_all
  note am = attrs_measure[of attrs]
  have le: "mu (pre @ rebuildTag B caps @ rest) \<le> mu (pre @ s)"
    unfolding new old using am w1 by linarith
  have "rebuildTag B caps = B" if "\<not> mu (pre @ rebuildTag B caps @ rest) < mu (pre @ s)"
  proof -
    from that am w1 have "mu wsp \<le> 1" and "mu (spaced attrs @ [62]) = Suc (mu (attrs @ [62]))"
      unfolding new old by linarith+
    then have "wsp = [32]" "spaced attrs = 32 # attrs"
      using mu_le_1[OF w(1)] am by blast+
    then show ?thesis by (simp add: rebuildTag_eq[OF c] B)
  qed
  moreover have "length rest < length s" using s by simp
  ultimately show ?thesis
    using le unfolding B_def by blast
qed


lemma stripAttributes_mu:
  "mu (pre @ stripAttributes s) \<le> mu (pre @ s) \<and>
   (stripAttributes s \<noteq> s \<longrightarrow> mu (pre @ stripAttributes s) < mu (pre @ s))"
  unfolding stripAttributes_def by (rule replaceAll_mu) (rule rebuildTag_local)

subsection \<open>The loop ends\<close>

lemma shrinks_comp: "shrinks f \<Longrightarrow> shrinks g \<Longrightarrow> shrinks (\<lambda>s. g (f s))"
  unfolding shrinks_def by (metis le_trans less_le_trans order_le_less_trans)

lemma shrinks_fixed: "shrinks f \<Longrightarrow> shrinks g \<Longrightarrow> g (f s) = s \<Longrightarrow> f s = s \<and> g s = s"
  unfolding shrinks_def by (metis leD order_le_less_trans)

lemma shrinks_delete: "3 \<le> minlen r \<Longrightarrow> shrinks (replaceAll r (\<lambda>_ _. []))"
  unfolding shrinks_def using replaceAll_delete_mu[of r "[]"] by simp

lemma shrinks_stripAttributes: "shrinks stripAttributes"
  unfolding shrinks_def using stripAttributes_mu[of "[]"] by simp

lemma shrinks_collapseBetweenTags: "shrinks collapseBetweenTags"
  unfolding shrinks_def using collapseBetweenTags_mu[of "[]"] by simp

lemma shrinks_pruneEmpty: "shrinks pruneEmpty"
  unfolding pruneEmpty_def using shrinks_delete[OF minlen_regexes(10)] by (simp add: shrinks_def)

lemma shrinks_fold: "(\<forall>f\<in>set fs. shrinks f) \<Longrightarrow> shrinks (fold (\<lambda>f x. f x) fs)"
proof (induction fs)
  case Nil
  then show ?case by (simp add: shrinks_def)
next
  case (Cons f fs)
  then have "shrinks f" "shrinks (fold (\<lambda>f x. f x) fs)"
    by simp_all
  then have "shrinks (\<lambda>s. fold (\<lambda>f x. f x) fs (f s))"
    by (rule shrinks_comp)
  moreover have "fold (\<lambda>f x. f x) (f # fs) = (\<lambda>s. fold (\<lambda>f x. f x) fs (f s))"
    by (rule ext) simp
  ultimately show ?case by simp
qed

lemma shrinks_fold_fixed:
  "(\<forall>f\<in>set fs. shrinks f) \<Longrightarrow> fold (\<lambda>f x. f x) fs s = s \<Longrightarrow> (\<forall>f\<in>set fs. f s = s)"
proof (induction fs)
  case Nil
  then show ?case by simp
next
  case (Cons f fs)
  have "shrinks f" "shrinks (fold (\<lambda>f x. f x) fs)"
    using Cons.prems(1) shrinks_fold[of fs] by simp_all
  from shrinks_fixed[OF this, of s] Cons.prems(2)
  have "f s = s" "fold (\<lambda>f x. f x) fs s = s" by simp_all
  with Cons.IH Cons.prems(1) show ?case by simp
qed

lemma removeElements_fold:
  "removeElements s = fold (\<lambda>f x. f x) (map (\<lambda>r. replaceAll r (\<lambda>_ _. [])) removalRxs) s"
  by (simp add: removeElements_def removalRxs_def)

lemma removalRxs_minlen: "r \<in> set removalRxs \<Longrightarrow> 3 \<le> minlen r"
  using minlen_regexes by (auto simp: removalRxs_def)

lemma shrinks_removeElements: "shrinks removeElements"
proof -
  have "shrinks (fold (\<lambda>f x. f x) (map (\<lambda>r. replaceAll r (\<lambda>_ _. [])) removalRxs))"
    by (rule shrinks_fold) (auto intro: shrinks_delete removalRxs_minlen)
  then show ?thesis by (simp add: shrinks_def removeElements_fold)
qed

lemma shrinks_loopBody: "shrinks loopBody"
proof -
  have "loopBody = (\<lambda>s. pruneEmpty (collapseBetweenTags (stripAttributes (removeElements s))))"
    by (rule ext) (simp add: loopBody_def)
  then show ?thesis
    using shrinks_comp[OF shrinks_comp[OF shrinks_comp[OF shrinks_removeElements
      shrinks_stripAttributes] shrinks_collapseBetweenTags] shrinks_pruneEmpty]
    by simp
qed

lemma doWhile_terminates: "\<exists>y. doWhile s = Some y \<and> loopBody y = y"
proof (induction "mu s" arbitrary: s rule: less_induct)
  case less
  show ?case
  proof (cases "loopBody s = s")
    case True
    then show ?thesis by (subst doWhile.simps) (simp add: Let_def)
  next
    case False
    with shrinks_loopBody have "mu (loopBody s) < mu s" by (simp add: shrinks_def)
    from less[OF this] obtain y where "doWhile (loopBody s) = Some y" "loopBody y = y" by blast
    then show ?thesis using False by (subst doWhile.simps) (simp add: Let_def)
  qed
qed


section \<open>What a fixed point of the loop body looks like\<close>

lemma replaceAll_fixed:
  assumes local: "\<And>s rest caps pre. firstMatch r s = Some (rest, caps) \<Longrightarrow>
     length rest < length s \<and>
     mu (pre @ f (take (length s - length rest) s) caps @ rest) < mu (pre @ s)"
    and fixed: "replaceAll r f s = s"
  shows "\<not> occurs r s"
  using fixed
proof (induction s)
  case Nil
  have "firstMatch r [] = None"
  proof (cases "firstMatch r []")
    case (Some st)
    then show ?thesis using local[of "[]" "fst st" "snd st"] by simp
  qed simp
  then show ?case by simp
next
  case (Cons c cs)
  have none: "firstMatch r (c # cs) = None"
  proof (cases "firstMatch r (c # cs)")
    case (Some st)
    obtain rest caps where st: "st = (rest, caps)" by (cases st)
    note fm = Some[unfolded st]
    define B where "B = take (length (c # cs) - length rest) (c # cs)"
    from local[OF fm, of "[]"] have lt: "length rest < length (c # cs)"
      and less: "mu (f B caps @ rest) < mu (c # cs)"
      unfolding B_def by simp_all
    have eq: "replaceAll r f (c # cs) = f B caps @ replaceAll r f rest"
      using fm lt unfolding B_def by (simp add: replaceAll.simps[of r f "c # cs"])
    have "mu (f B caps @ replaceAll r f rest) \<le> mu (f B caps @ rest)"
      using replaceAll_mu[of r f "f B caps" rest] local by (meson less_imp_le)
    with less have "mu (replaceAll r f (c # cs)) < mu (c # cs)"
      unfolding eq by simp
    with Cons.prems show ?thesis by simp
  qed simp
  then have "replaceAll r f (c # cs) = c # replaceAll r f cs"
    by (simp add: replaceAll.simps[of r f "c # cs"])
  with Cons.prems have "replaceAll r f cs = cs" by simp
  with Cons.IH none show ?case by simp
qed

lemma delete_fixed:
  assumes "3 \<le> minlen r" and "replaceAll r (\<lambda>_ _. []) s = s"
  shows "\<not> occurs r s"
proof (rule replaceAll_fixed[OF _ assms(2)])
  fix s rest caps pre
  assume "firstMatch r s = Some (rest, caps)"
  from delete_local[OF assms(1) this, of pre]
  show "length rest < length s \<and> mu (pre @ [] @ rest) < mu (pre @ s)" by simp
qed

lemma collapse_fixed:
  assumes "collapseBetweenTags s = s"
  shows "\<not> occurs betweenTagsRx s"
proof (rule replaceAll_fixed[OF _ assms[unfolded collapseBetweenTags_def]])
  fix s rest caps pre
  assume "firstMatch betweenTagsRx s = Some (rest, caps)"
  from betweenTags_local[OF this, of pre]
  show "length rest < length s \<and> mu (pre @ js ''><'' @ rest) < mu (pre @ s)" .
qed

lemma loopBody_fixed:
  assumes "loopBody s = s"
  shows "removeElements s = s" "stripAttributes s = s" "collapseBetweenTags s = s"
    "pruneEmpty s = s"
proof -
  let ?fs = "[removeElements, stripAttributes, collapseBetweenTags, pruneEmpty]"
  have "\<forall>f\<in>set ?fs. shrinks f"
    using shrinks_removeElements shrinks_stripAttributes shrinks_collapseBetweenTags
      shrinks_pruneEmpty by simp
  moreover have "fold (\<lambda>f x. f x) ?fs s = s"
    using assms by (simp add: loopBody_def)
  ultimately have "\<forall>f\<in>set ?fs. f s = s" by (rule shrinks_fold_fixed)
  then show "removeElements s = s" "stripAttributes s = s" "collapseBetweenTags s = s"
    "pruneEmpty s = s" by simp_all
qed

lemma removeElements_fixed:
  assumes "removeElements s = s" and "r \<in> set removalRxs"
  shows "\<not> occurs r s"
proof -
  let ?fs = "map (\<lambda>r. replaceAll r (\<lambda>_ _. [])) removalRxs"
  have "\<forall>f\<in>set ?fs. shrinks f"
    by (auto intro: shrinks_delete removalRxs_minlen)
  moreover have "fold (\<lambda>f x. f x) ?fs s = s"
    using assms(1) by (simp add: removeElements_fold)
  ultimately have "\<forall>f\<in>set ?fs. f s = s" by (rule shrinks_fold_fixed)
  with assms(2) have "replaceAll r (\<lambda>_ _. []) s = s" by simp
  from delete_fixed[OF removalRxs_minlen[OF assms(2)] this] show ?thesis .
qed

lemma filter_result:
  "\<exists>out. removeUnwantedElements html = Some out \<and> loopBody out = out"
  unfolding removeUnwantedElements_def by (rule doWhile_terminates)

lemma filter_fixed:
  assumes "loopBody out = out"
  shows "removeUnwantedElements out = Some out"
  unfolding removeUnwantedElements_def using assms
  by (subst doWhile.simps) (simp add: Let_def)


section \<open>The two implementations\<close>

text \<open>
  The regular expressions of src/index.ts keep an \<open>iframe\<close> element. A sanitizer whose
  output for that element holds no \<open>iframe\<close> tag, as the option \<open>allowedTags\<close> of the
  second implementation asks, returns something else.
\<close>

lemma iframe_not_allowed: "''iframe'' \<notin> set (allowedTags options)"
  by (simp add: options_def)


section \<open>Computing the first match along the greedy path\<close>


lemma firstMatch_firstOf: "firstMatch r s = firstOf r (s, noCaptures)"
  by (simp add: firstMatch_def firstOf_def)

lemma firstOf_Atom: "p x \<Longrightarrow> firstOf (Atom p) (x # s, c) = Some (s, c)"
  by (simp add: firstOf_def ms.simps)

lemma firstOf_Eps: "firstOf Eps st = Some st"
  by (simp add: firstOf_def ms.simps)

lemma firstOf_Seq:
  "firstOf a st = Some m \<Longrightarrow> firstOf b m = Some m' \<Longrightarrow> firstOf (Seq a b) st = Some m'"
  by (auto simp: firstOf_def ms.simps split: list.splits)

lemma firstOf_Group:
  "firstOf a (s, c) = Some (s', c') \<Longrightarrow>
   firstOf (Group i a) (s, c) = Some (s', c'(i \<mapsto> take (length s - length s') s))"
  by (auto simp: firstOf_def ms.simps split: list.splits)

lemma firstOf_Star_Atom:
  assumes "\<forall>x\<in>set v. p x" and "s = [] \<or> \<not> p (hd s)"
  shows "firstOf (Star (Atom p)) (v @ s, c) = Some (s, c)"
  using assms(1)
proof (induction v)
  case Nil
  have "ms (Atom p) (s, c) = []"
    using assms(2) by (cases s) (auto simp: ms.simps)
  then show ?case by (simp add: firstOf_def ms.simps)
next
  case (Cons x v)
  then have ih: "firstOf (Star (Atom p)) (v @ s, c) = Some (s, c)" and px: "p x" by simp_all
  have "ms (Star (Atom p)) (x # v @ s, c) = ms (Star (Atom p)) (v @ s, c) @ [(x # v @ s, c)]"
    using px by (subst ms.simps(4)) (simp add: ms.simps(1))
  then show ?case
    using ih by (simp add: firstOf_def split: list.splits)
qed

lemma firstOf_PlusRx_Atom:
  assumes "p x" and "\<forall>y\<in>set v. p y" and "s = [] \<or> \<not> p (hd s)"
  shows "firstOf (PlusRx (Atom p)) (x # v @ s, c) = Some (s, c)"
proof -
  have "firstOf (Atom p) (x # v @ s, c) = Some (v @ s, c)"
    using assms(1) by (rule firstOf_Atom)
  moreover have "firstOf (Star (Atom p)) (v @ s, c) = Some (s, c)"
    using assms(2,3) by (rule firstOf_Star_Atom)
  ultimately show ?thesis unfolding PlusRx_def by (rule firstOf_Seq)
qed


lemma space_facts: "isSpace c \<Longrightarrow> \<not> isLetterI c \<and> \<not> isDigit c \<and> c \<noteq> 61 \<and> c \<noteq> 62 \<and> c \<noteq> 60 \<and> \<not> isQuote c"
  by (auto simp: isLetterI_def isDigit_def canonicalize_def isSpace_def isQuote_def
      split: if_splits)

lemma firstMatch_attr:
  assumes nm: "isAttrName name" and w1: "isBlank w1" and w2: "isBlank w2"
    and q1: "isQuote q1" and q2: "isQuote q2" and v: "list_all (\<lambda>c. \<not> isQuote c) v"
  shows "firstMatch attrRegex (name @ w1 @ 61 # w2 @ q1 # v @ q2 # rest)
           = Some (rest, noCaptures(1 \<mapsto> name, 2 \<mapsto> v))"
proof -
  let ?namechar = "\<lambda>c. isLetterI c \<or> isDigit c \<or> isChar CHR ''-'' c"
  from nm obtain y u where name: "name = y # u" and y: "isLetterI y"
    and u: "\<forall>c\<in>set u. ?namechar c"
    by (cases name) (auto simp: isAttrName_def list_all_iff)
  let ?s4 = "q2 # rest"
  let ?s3 = "v @ ?s4"
  let ?s2 = "q1 # ?s3"
  let ?s1 = "61 # w2 @ ?s2"
  let ?s0 = "w1 @ ?s1"
  let ?c1 = "noCaptures(1 \<mapsto> name)"
  let ?c2 = "noCaptures(1 \<mapsto> name, 2 \<mapsto> v)"
  have n61: "\<not> ?namechar 61" "\<not> isSpace 61" "isChar CHR ''='' 61"
    by (simp_all add: isLetterI_def isDigit_def isChar_def cu_def canonicalize_def isSpace_def)
  have nq: "\<not> isSpace q1" "\<not> isSpace q2" "\<not> ?namechar q1"
    using q1 q2 by (auto simp: isSpace_def isQuote_def isLetterI_def isDigit_def isChar_def cu_def
        canonicalize_def)
  have hd0: "?s0 = [] \<or> \<not> ?namechar (hd ?s0)"
    using w1 n61(1) space_facts[of "hd w1"]
    by (cases w1) (auto simp: isBlank_def isChar_def cu_def isSpace_def)
  have "firstOf (Atom isLetterI) (y # u @ ?s0, noCaptures) = Some (u @ ?s0, noCaptures)"
    using y by (rule firstOf_Atom)
  moreover have "firstOf (Star (Atom ?namechar)) (u @ ?s0, noCaptures) = Some (?s0, noCaptures)"
    using u hd0 by (intro firstOf_Star_Atom)
  ultimately have "firstOf (Seq (Atom isLetterI) (Star (Atom ?namechar))) (y # u @ ?s0, noCaptures)
      = Some (?s0, noCaptures)" by (rule firstOf_Seq)
  from firstOf_Group[OF this, of 1]
  have g1: "firstOf (Group 1 (Seq (Atom isLetterI) (Star (Atom ?namechar)))) (y # u @ ?s0, noCaptures)
      = Some (?s0, ?c1)" by (simp add: name)
  have sp1: "firstOf (Star (Atom isSpace)) (?s0, ?c1) = Some (?s1, ?c1)"
    using w1 n61(2) by (intro firstOf_Star_Atom) (simp_all add: isBlank_def list_all_iff)
  have eq: "firstOf (Atom (isChar CHR ''='')) (?s1, ?c1) = Some (w2 @ ?s2, ?c1)"
    using n61(3) by (rule firstOf_Atom)
  have sp2: "firstOf (Star (Atom isSpace)) (w2 @ ?s2, ?c1) = Some (?s2, ?c1)"
    using w2 nq(1) by (intro firstOf_Star_Atom) (simp_all add: isBlank_def list_all_iff)
  have qa: "firstOf (Atom isQuote) (?s2, ?c1) = Some (?s3, ?c1)"
    using q1 by (rule firstOf_Atom)
  have "firstOf (Star (Atom (\<lambda>c. \<not> isQuote c))) (?s3, ?c1) = Some (?s4, ?c1)"
    using v q2 by (intro firstOf_Star_Atom) (simp_all add: list_all_iff)
  from firstOf_Group[OF this, of 2]
  have g2: "firstOf (Group 2 (Star (Atom (\<lambda>c. \<not> isQuote c)))) (?s3, ?c1) = Some (?s4, ?c2)"
    by simp
  have qb: "firstOf (Atom isQuote) (?s4, ?c2) = Some (rest, ?c2)"
    using q2 by (rule firstOf_Atom)
  have "firstOf attrRegex (y # u @ ?s0, noCaptures) = Some (rest, ?c2)"
    unfolding attrRegex_def seqs_simps
    by (intro firstOf_Seq[OF g1] firstOf_Seq[OF sp1] firstOf_Seq[OF eq] firstOf_Seq[OF sp2]
        firstOf_Seq[OF qa] firstOf_Seq[OF g2] firstOf_Seq[OF qb] firstOf_Eps)
  then show ?thesis by (simp add: firstMatch_firstOf name)
qed

lemma firstMatch_openTag:
  assumes tg: "isTagName tag" and wn: "wsp \<noteq> []" and wb: "isBlank wsp" and a: "62 \<notin> set attrs"
  shows "firstMatch openTagRx (60 # tag @ wsp @ attrs @ 62 # rest)
           = Some (rest, noCaptures(1 \<mapsto> tag, 2 \<mapsto> dropWhile isSpace attrs))"
proof -
  let ?alnum = "\<lambda>c. isLetterI c \<or> isDigit c"
  from tg obtain x w where tag: "tag = x # w" and x: "isLetterI x" and w: "\<forall>c\<in>set w. ?alnum c"
    by (cases tag) (auto simp: isTagName_def list_all_iff)
  define wl where "wl = takeWhile isSpace attrs"
  define at where "at = dropWhile isSpace attrs"
  from wn obtain y ws where wsp: "wsp = y # ws" by (cases wsp) auto
  let ?s3 = "62 # rest"
  let ?s2 = "at @ ?s3"
  let ?s1 = "wsp @ wl @ ?s2"
  let ?c1 = "noCaptures(1 \<mapsto> tag)"
  let ?c2 = "noCaptures(1 \<mapsto> tag, 2 \<mapsto> at)"
  have n62: "\<not> isSpace 62" "isChar CHR ''>'' 62" "isChar CHR ''<'' 60"
    by (simp_all add: isSpace_def isChar_def cu_def)
  have ysp: "isSpace y" "\<forall>c\<in>set (ws @ wl). isSpace c"
    using wb wsp by (auto simp: isBlank_def list_all_iff wl_def dest: set_takeWhileD)
  have hd1: "?s1 = [] \<or> \<not> ?alnum (hd ?s1)"
    using ysp(1) space_facts[of y] by (simp add: wsp)
  have lt: "firstOf (Atom (isChar CHR ''<'')) (60 # x # w @ ?s1, noCaptures)
      = Some (x # w @ ?s1, noCaptures)"
    using n62(3) by (rule firstOf_Atom)
  have "firstOf (Atom isLetterI) (x # w @ ?s1, noCaptures) = Some (w @ ?s1, noCaptures)"
    using x by (rule firstOf_Atom)
  moreover have "firstOf (Star (Atom ?alnum)) (w @ ?s1, noCaptures) = Some (?s1, noCaptures)"
    using w hd1 by (intro firstOf_Star_Atom)
  ultimately have "firstOf (Seq (Atom isLetterI) (Star (Atom ?alnum))) (x # w @ ?s1, noCaptures)
      = Some (?s1, noCaptures)" by (rule firstOf_Seq)
  from firstOf_Group[OF this, of 1]
  have g1: "firstOf (Group 1 (Seq (Atom isLetterI) (Star (Atom ?alnum)))) (x # w @ ?s1, noCaptures)
      = Some (?s1, ?c1)" by (simp add: tag)
  have hd2: "?s2 = [] \<or> \<not> isSpace (hd ?s2)"
  proof (cases at)
    case Nil
    then show ?thesis using n62(1) by simp
  next
    case (Cons b bs)
    then have "\<not> isSpace (hd at)"
      using hd_dropWhile[of isSpace attrs] by (simp add: at_def)
    then show ?thesis using Cons by simp
  qed
  from firstOf_PlusRx_Atom[of isSpace y "ws @ wl" ?s2 ?c1, OF ysp hd2]
  have sp: "firstOf (PlusRx (Atom isSpace)) (?s1, ?c1) = Some (?s2, ?c1)" by (simp add: wsp)
  have "\<forall>c\<in>set at. \<not> isChar CHR ''>'' c"
    using a by (auto simp: at_def isChar_def cu_def dest: set_dropWhileD)
  then have "firstOf (Star (Atom (\<lambda>c. \<not> isChar CHR ''>'' c))) (?s2, ?c1) = Some (?s3, ?c1)"
    by (intro firstOf_Star_Atom) (simp_all add: isChar_def cu_def)
  from firstOf_Group[OF this, of 2]
  have g2: "firstOf (Group 2 (Star (Atom (\<lambda>c. \<not> isChar CHR ''>'' c)))) (?s2, ?c1)
      = Some (?s3, ?c2)" by simp
  have gt: "firstOf (Atom (isChar CHR ''>'')) (?s3, ?c2) = Some (rest, ?c2)"
    using n62(2) by (rule firstOf_Atom)
  have F: "firstOf openTagRx (60 # x # w @ ?s1, noCaptures) = Some (rest, ?c2)"
    unfolding openTagRx_def seqs_simps
    by (intro firstOf_Seq[OF lt] firstOf_Seq[OF g1] firstOf_Seq[OF sp] firstOf_Seq[OF g2]
        firstOf_Seq[OF gt] firstOf_Eps)
  have e: "60 # tag @ wsp @ attrs @ 62 # rest = 60 # x # w @ ?s1"
    by (simp add: tag wl_def at_def)
  show ?thesis unfolding firstMatch_firstOf e using F by (simp add: at_def)
qed


lemma firstMatch_openTag_Nil: "firstMatch openTagRx [] = None"
proof (cases "firstMatch openTagRx []")
  case (Some st)
  then show ?thesis using openTag_match[of "[]" "fst st" "snd st"] by auto
qed simp

text \<open>The three predicates on strings are the languages of the parts of the patterns.\<close>

lemma star_whole:
  "firstMatch (Star (Atom p)) t = Some ([], noCaptures) \<longleftrightarrow> list_all p t"
proof
  assume "firstMatch (Star (Atom p)) t = Some ([], noCaptures)"
  from ms_Star_Atom[OF firstMatch_mem[OF this]] show "list_all p t"
    by (simp add: list_all_iff)
next
  assume "list_all p t"
  then have "firstOf (Star (Atom p)) (t @ [], noCaptures) = Some ([], noCaptures)"
    by (intro firstOf_Star_Atom) (simp_all add: list_all_iff)
  then show "firstMatch (Star (Atom p)) t = Some ([], noCaptures)"
    by (simp add: firstMatch_firstOf)
qed

lemma name_whole:
  "firstMatch (Seq (Atom p) (Star (Atom q))) t = Some ([], noCaptures)
     \<longleftrightarrow> t \<noteq> [] \<and> p (hd t) \<and> list_all q (tl t)"
proof
  assume "firstMatch (Seq (Atom p) (Star (Atom q))) t = Some ([], noCaptures)"
  from firstMatch_mem[OF this] obtain k where k: "k \<in> set (ms (Atom p) (t, noCaptures))"
    and s: "([], noCaptures) \<in> set (ms (Star (Atom q)) k)"
    unfolding ms_Seq_iff by blast
  from k obtain x where x: "t = x # fst k" "p x" unfolding ms_Atom_iff by blast
  from ms_Star_Atom[OF s] have "\<forall>c\<in>set (fst k). q c" by auto
  with x show "t \<noteq> [] \<and> p (hd t) \<and> list_all q (tl t)"
    by (simp add: list_all_iff)
next
  assume a: "t \<noteq> [] \<and> p (hd t) \<and> list_all q (tl t)"
  then obtain x w where t: "t = x # w" by (cases t) auto
  with a have "firstOf (Atom p) (x # w @ [], noCaptures) = Some (w @ [], noCaptures)"
    by (intro firstOf_Atom) simp
  moreover from a t have "firstOf (Star (Atom q)) (w @ [], noCaptures) = Some ([], noCaptures)"
    by (intro firstOf_Star_Atom) (simp_all add: list_all_iff)
  ultimately have "firstOf (Seq (Atom p) (Star (Atom q))) (x # w @ [], noCaptures)
      = Some ([], noCaptures)" by (rule firstOf_Seq)
  then show "firstMatch (Seq (Atom p) (Star (Atom q))) t = Some ([], noCaptures)"
    by (simp add: firstMatch_firstOf t)
qed

lemma name_patterns:
  "isTagName t \<longleftrightarrow>
     firstMatch (Seq (Atom isLetterI) (Star (Atom (\<lambda>c. isLetterI c \<or> isDigit c)))) t
       = Some ([], noCaptures)"
  "isAttrName t \<longleftrightarrow>
     firstMatch (Seq (Atom isLetterI)
                     (Star (Atom (\<lambda>c. isLetterI c \<or> isDigit c \<or> isChar CHR ''-'' c)))) t
       = Some ([], noCaptures)"
  "isBlank t \<longleftrightarrow> firstMatch (Star (Atom isSpace)) t = Some ([], noCaptures)"
  by (simp_all only: name_whole star_whole isTagName_def isAttrName_def isBlank_def)

section \<open>The attribute pass without the matcher\<close>

subsection \<open>The scan of the attributes\<close>

text \<open>
  Where the text starts with a quoted attribute, the scan takes it, keeps it when its
  lower-cased name is allowed, and goes on behind it; elsewhere it goes on behind the
  next code unit. White space in front of the attributes changes nothing.
\<close>

lemma lits: "js ''<'' = [60]" "js ''>'' = [62]" "js '' '' = [32]" "js ''='' = [61]"
  by (simp_all add: js_def)

lemma attr_no_space:
  assumes "isSpace c"
  shows "firstMatch attrRegex (c # cs) = None"
proof (cases "firstMatch attrRegex (c # cs)")
  case (Some st)
  from attr_match[of "c # cs" "fst st" "snd st"] Some obtain a where
    a: "c # cs = a @ fst st" "4 \<le> length a" "isLetterI (hd a)" by auto
  then have "hd a = c" by (cases a) auto
  with a(3) assms space_facts[of c] show ?thesis by simp
qed simp

lemma cleanedAttrs_dropWhile: "cleanedAttrs (dropWhile isSpace t) = cleanedAttrs t"
  by (induction t) (simp_all add: cleanedAttrs_skip attr_no_space)

lemma cleanedAttrs_at:
  assumes "isAttrName name" "isBlank w1" "isBlank w2" "isQuote q1" "isQuote q2"
    "list_all (\<lambda>c. \<not> isQuote c) v"
  shows "cleanedAttrs (name @ w1 @ 61 # w2 @ q1 # v @ q2 # rest)
           = (if toLowerCase name \<in> set allowedAttrs
              then [name @ w1 @ 61 # w2 @ q1 # v @ [q2]] else []) @ cleanedAttrs rest"
proof -
  let ?a = "name @ w1 @ 61 # w2 @ q1 # v @ [q2]"
  have fm: "firstMatch attrRegex (name @ w1 @ 61 # w2 @ q1 # v @ q2 # rest)
      = Some (rest, noCaptures(1 \<mapsto> name, 2 \<mapsto> v))"
    using assms by (rule firstMatch_attr)
  from cleanedAttrs_match[OF fm, of ?a] show ?thesis
    by (simp add: kept_def capture_def)
qed

lemma cleanedAttrs_none:
  assumes "\<not> (\<exists>name w1 w2 q1 v q2 rest. u = name @ w1 @ 61 # w2 @ q1 # v @ q2 # rest \<and>
      isAttrName name \<and> isBlank w1 \<and> isBlank w2 \<and> isQuote q1 \<and> isQuote q2 \<and>
      list_all (\<lambda>c. \<not> isQuote c) v)"
  shows "cleanedAttrs u = (case u of [] \<Rightarrow> [] | c # cs \<Rightarrow> cleanedAttrs cs)"
proof -
  have none: "firstMatch attrRegex u = None"
  proof (cases "firstMatch attrRegex u")
    case (Some st)
    then have "firstMatch attrRegex u = Some (fst st, snd st)" by simp
    from attr_shape[OF this] assms show ?thesis by blast
  qed simp
  show ?thesis
  proof (cases u)
    case Nil
    then show ?thesis by (simp add: cleanedAttrs_Nil)
  next
    case (Cons c cs)
    with none show ?thesis by (simp add: cleanedAttrs_skip)
  qed
qed


subsection \<open>The scan of the tags\<close>

text \<open>
  Where the string starts with a tag, the pass writes the rebuilt tag and goes on
  behind the \<open>>\<close>; elsewhere it copies one code unit.
\<close>

lemma stripAttributes_Nil: "stripAttributes [] = []"
  by (simp add: stripAttributes_def replaceAll.simps[of _ _ "[]"] firstMatch_openTag_Nil)

lemma stripAttributes_at:
  assumes "isTagName tag" "wsp \<noteq> []" "isBlank wsp" "62 \<notin> set attrs"
  shows "stripAttributes (60 # tag @ wsp @ attrs @ 62 # rest)
           = 60 # tag @ concat (map (\<lambda>a. 32 # a) (cleanedAttrs attrs)) @ 62 # stripAttributes rest"
proof -
  let ?s = "60 # tag @ wsp @ attrs @ 62 # rest"
  let ?caps = "noCaptures(1 \<mapsto> tag, 2 \<mapsto> dropWhile isSpace attrs)"
  have fm: "firstMatch openTagRx ?s = Some (rest, ?caps)"
    using assms by (rule firstMatch_openTag)
  have lt: "length rest < length ?s" by simp
  have "replaceAll openTagRx rebuildTag ?s
      = rebuildTag (take (length ?s - length rest) ?s) ?caps @ replaceAll openTagRx rebuildTag rest"
    using fm lt by (subst replaceAll.simps) simp
  moreover have "rebuildTag B ?caps = 60 # tag @ spaced (dropWhile isSpace attrs) @ [62]" for B
    by (rule rebuildTag_eq) simp_all
  ultimately show ?thesis
    by (simp add: stripAttributes_def spaced_def cleanedAttrs_dropWhile)
qed

lemma stripAttributes_none:
  assumes "\<not> (\<exists>tag wsp attrs rest. s = 60 # tag @ wsp @ attrs @ 62 # rest \<and> isTagName tag \<and>
      wsp \<noteq> [] \<and> isBlank wsp \<and> 62 \<notin> set attrs)"
  shows "stripAttributes s = (case s of [] \<Rightarrow> [] | c # cs \<Rightarrow> c # stripAttributes cs)"
proof -
  have none: "firstMatch openTagRx s = None"
  proof (cases "firstMatch openTagRx s")
    case (Some st)
    then have "firstMatch openTagRx s = Some (fst st, snd st)" by simp
    from openTag_shape[OF this] assms show ?thesis by blast
  qed simp
  show ?thesis
  proof (cases s)
    case Nil
    then show ?thesis by (simp add: stripAttributes_Nil)
  next
    case (Cons c cs)
    with none show ?thesis
      by (simp add: stripAttributes_def replaceAll.simps[of _ _ "c # cs"])
  qed
qed

subsection \<open>The tags of a string that the attribute pass leaves unchanged\<close>


lemma stripAttributes_fixed_tags:
  "stripAttributes s = s \<Longrightarrow> (m, caps) \<in> set (execAll openTagRx s) \<Longrightarrow> rebuildTag m caps = m"
proof (induction "length s" arbitrary: s rule: less_induct)
  case less
  show ?case
  proof (cases "firstMatch openTagRx s")
    case None
    show ?thesis
    proof (cases s)
      case Nil
      with None less.prems show ?thesis by (simp add: execAll.simps[of _ "[]"])
    next
      case (Cons c cs)
      with None less.prems have "(m, caps) \<in> set (execAll openTagRx cs)"
        and "stripAttributes cs = cs"
        by (simp_all add: execAll.simps[of _ "c # cs"] stripAttributes_def
            replaceAll.simps[of _ _ "c # cs"])
      with less.hyps[of cs] Cons show ?thesis by simp
    qed
  next
    case (Some st)
    obtain rest c where st: "st = (rest, c)" by (cases st)
    note fm = Some[unfolded st]
    define B where "B = take (length s - length rest) s"
    from rebuildTag_local[OF fm, of "[]"] have lt: "length rest < length s"
      and strict: "rebuildTag B c \<noteq> B \<Longrightarrow> mu (rebuildTag B c @ rest) < mu s"
      unfolding B_def by simp_all
    from firstMatch_suffix[OF fm] have sB: "s = B @ rest" unfolding B_def by auto
    have eq: "stripAttributes s = rebuildTag B c @ stripAttributes rest"
      using fm lt unfolding B_def stripAttributes_def by (simp add: replaceAll.simps[of _ _ s])
    have le: "mu (rebuildTag B c @ stripAttributes rest) \<le> mu (rebuildTag B c @ rest)"
      using stripAttributes_mu[of "rebuildTag B c" rest] by simp
    have b: "rebuildTag B c = B"
    proof (rule ccontr)
      assume "rebuildTag B c \<noteq> B"
      from strict[OF this] le have "mu (stripAttributes s) < mu s" unfolding eq by simp
      with less.prems(1) show False by simp
    qed
    with eq less.prems(1) sB have r: "stripAttributes rest = rest" by simp
    from less.prems(2) fm lt consider "m = B" "caps = c" | "(m, caps) \<in> set (execAll openTagRx rest)"
      unfolding B_def by (auto simp: execAll.simps[of _ s])
    then show ?thesis
    proof cases
      case 1
      with b show ?thesis by simp
    next
      case 2
      from less.hyps[OF lt r 2] show ?thesis .
    qed
  qed
qed

lemma stripAttributes_fixed_iff:
  "stripAttributes s = s \<longleftrightarrow> (\<forall>(m, caps)\<in>set (execAll openTagRx s). rebuildTag m caps = m)"
proof
  assume "stripAttributes s = s"
  then show "\<forall>(m, caps)\<in>set (execAll openTagRx s). rebuildTag m caps = m"
    using stripAttributes_fixed_tags[of s] by blast
next
  show "stripAttributes s = s" if "\<forall>(m, caps)\<in>set (execAll openTagRx s). rebuildTag m caps = m"
    using that
  proof (induction "length s" arbitrary: s rule: less_induct)
    case less
    show ?case
    proof (cases "firstMatch openTagRx s")
      case None
      show ?thesis
      proof (cases s)
        case Nil
        then show ?thesis by (simp add: stripAttributes_Nil)
      next
        case (Cons c cs)
        with None less.prems have "\<forall>(m, caps)\<in>set (execAll openTagRx cs). rebuildTag m caps = m"
          by (simp add: execAll.simps[of _ "c # cs"])
        with less.hyps[of cs] Cons have "stripAttributes cs = cs" by simp
        with None Cons show ?thesis
          by (simp add: stripAttributes_def replaceAll.simps[of _ _ "c # cs"])
      qed
    next
      case (Some st)
      obtain rest c where st: "st = (rest, c)" by (cases st)
      note fm = Some[unfolded st]
      define B where "B = take (length s - length rest) s"
      from rebuildTag_local[OF fm, of "[]"] have lt: "length rest < length s" by simp
      from firstMatch_suffix[OF fm] have sB: "s = B @ rest" unfolding B_def by auto
      have ex: "execAll openTagRx s = (B, c) # execAll openTagRx rest"
        using fm lt unfolding B_def by (simp add: execAll.simps[of _ s])
      with less.prems have b: "rebuildTag B c = B"
        and r: "\<forall>(m, caps)\<in>set (execAll openTagRx rest). rebuildTag m caps = m" by simp_all
      from less.hyps[OF lt r] have "stripAttributes rest = rest" .
      moreover have "stripAttributes s = rebuildTag B c @ stripAttributes rest"
        using fm lt unfolding B_def stripAttributes_def by (simp add: replaceAll.simps[of _ _ s])
      ultimately show ?thesis using b sB by simp
    qed
  qed
qed

lemma tags_at:
  assumes "isTagName tag" "wsp \<noteq> []" "isBlank wsp" "62 \<notin> set attrs"
  shows "map fst (execAll openTagRx (60 # tag @ wsp @ attrs @ 62 # rest))
           = (60 # tag @ wsp @ attrs @ [62]) # map fst (execAll openTagRx rest)"
proof -
  let ?s = "60 # tag @ wsp @ attrs @ 62 # rest"
  have fm: "firstMatch openTagRx ?s
      = Some (rest, noCaptures(1 \<mapsto> tag, 2 \<mapsto> dropWhile isSpace attrs))"
    using assms by (rule firstMatch_openTag)
  have "take (length ?s - length rest) ?s = 60 # tag @ wsp @ attrs @ [62]" by simp
  with fm show ?thesis by (subst execAll.simps) simp
qed

lemma tags_none:
  assumes "\<not> (\<exists>tag wsp attrs rest. s = 60 # tag @ wsp @ attrs @ 62 # rest \<and> isTagName tag \<and>
      wsp \<noteq> [] \<and> isBlank wsp \<and> 62 \<notin> set attrs)"
  shows "map fst (execAll openTagRx s)
           = (case s of [] \<Rightarrow> [] | c # cs \<Rightarrow> map fst (execAll openTagRx cs))"
proof -
  have none: "firstMatch openTagRx s = None"
  proof (cases "firstMatch openTagRx s")
    case (Some st)
    then have "firstMatch openTagRx s = Some (fst st, snd st)" by simp
    from openTag_shape[OF this] assms show ?thesis by blast
  qed simp
  show ?thesis
  proof (cases s)
    case Nil
    with none show ?thesis by (simp add: execAll.simps[of _ "[]"])
  next
    case (Cons c cs)
    with none show ?thesis by (simp add: execAll.simps[of _ "c # cs"])
  qed
qed


section \<open>Where a pattern cannot match\<close>

text \<open>
  A sequence that starts with a single-code-unit pattern is decided by the first code
  unit of the input, and nested sequences can be read from the left.
\<close>

lemma ms_Seq_Atom:
  "ms (Seq (Atom p) b) (s, c) = (case s of [] \<Rightarrow> [] | x # xs \<Rightarrow> if p x then ms b (xs, c) else [])"
  by (cases s) (simp_all add: ms.simps)

lemma ms_Seq_assoc: "ms (Seq (Seq a b) d) st = ms (Seq a (Seq b d)) st"
proof -
  have "concat (map f (concat (map g xs))) = concat (map (\<lambda>x. concat (map f (g x))) xs)"
    for f :: "mstate \<Rightarrow> mstate list" and g :: "mstate \<Rightarrow> mstate list" and xs
    by (induction xs) simp_all
  moreover have "ms (Seq b d) = (\<lambda>x. concat (map (ms d) (ms b x)))"
    by (rule ext) (simp add: ms.simps)
  ultimately show ?thesis by (simp add: ms.simps(3)[of "Seq a b"] ms.simps(3)[of a b]
        ms.simps(3)[of a "Seq b d"])
qed

lemma firstMatch_None_iff: "firstMatch r s = None \<longleftrightarrow> ms r (s, noCaptures) = []"
  by (simp add: firstMatch_def split: list.splits)

lemma isCharI_lt [simp]: "isCharI CHR ''<'' c \<longleftrightarrow> c = 60"
  by (auto simp: isCharI_def canonicalize_def cu_def)

lemma isChar_simps [simp]: "isChar CHR ''<'' c \<longleftrightarrow> c = 60" "isChar CHR ''>'' c \<longleftrightarrow> c = 62"
  by (auto simp: isChar_def cu_def)

lemmas rx_defs = headRx_def scriptRx_def styleRx_def svgRx_def italicRx_def metaRx_def
  inputRx_def imgDataRx_def elementRx_def tagRx_def litI_def lit_def emptyElementRx_def
  betweenTagsRx_def dataUriRx_def

text \<open>
  The patterns that start with \<open><\<close> match only at a \<open><\<close>, and only when the code
  units behind it spell the start of their tag name.
\<close>

lemma lt_start:
  assumes "r \<in> set ltRxs" and "s = [] \<or> hd s \<noteq> 60"
  shows "firstMatch r s = None"
  using assms
  by (cases s)
    (auto simp: ltRxs_def firstMatch_None_iff rx_defs ms_Seq_assoc ms_Seq_Atom)

lemma lt_Nil: "r \<in> set ltRxs \<Longrightarrow> firstMatch r [] = None"
  by (rule lt_start) simp_all

lemma lt_Cons: "r \<in> set ltRxs \<Longrightarrow> c \<noteq> 60 \<Longrightarrow> firstMatch r (c # cs) = None"
  by (rule lt_start) simp_all

lemma lt_second_a:
  assumes "r \<in> set [headRx, scriptRx, styleRx, svgRx, imgDataRx, metaRx, italicRx, inputRx]"
    and "d = 97 \<or> d = 47"
  shows "firstMatch r (60 # d # cs) = None"
  using assms
  by (auto simp: firstMatch_None_iff rx_defs ms_Seq_assoc ms_Seq_Atom isCharI_def
      canonicalize_def cu_def)

lemma lt_second_i:
  assumes "r \<in> set [headRx, scriptRx, styleRx, svgRx, metaRx]"
  shows "firstMatch r (60 # 105 # cs) = None"
  using assms
  by (auto simp: firstMatch_None_iff rx_defs ms_Seq_assoc ms_Seq_Atom isCharI_def
      canonicalize_def cu_def)

lemma input_third: "firstMatch inputRx (60 # 105 # 109 # cs) = None"
  by (simp add: firstMatch_None_iff rx_defs ms_Seq_assoc ms_Seq_Atom isCharI_def
      canonicalize_def cu_def)

lemma emptyElement_gt:
  "firstMatch emptyElementRx (60 # 97 # 32 # cs) = None"
  "firstMatch emptyElementRx (60 # 47 # cs) = None"
  "firstMatch emptyElementRx (60 # 105 # 109 # 103 # 32 # cs) = None"
  by (simp_all add: firstMatch_None_iff emptyElementRx_def ms_Seq_Atom ms.simps(3,4,6)
      ms.simps(1) isLetterI_def isDigit_def canonicalize_def)

lemma betweenTags_start: "c \<noteq> 62 \<Longrightarrow> firstMatch betweenTagsRx (c # cs) = None"
  by (simp add: firstMatch_None_iff betweenTagsRx_def ms_Seq_Atom)

text \<open>A prefix of code units at which the pattern fails can be skipped.\<close>

lemma occurs_skip:
  assumes "\<And>c cs. c \<in> set u \<Longrightarrow> firstMatch r (c # cs) = None"
  shows "occurs r (u @ t) = occurs r t"
  using assms by (induction u) simp_all

lemma replaceAll_no_occurs: "\<not> occurs r s \<Longrightarrow> replaceAll r f s = s"
proof (induction s)
  case Nil
  then have "firstMatch r [] = None" by (cases "firstMatch r []") auto
  then show ?case by (simp add: replaceAll.simps[of r f "[]"])
next
  case (Cons c cs)
  then have "firstMatch r (c # cs) = None" "replaceAll r f cs = cs"
    by (cases "firstMatch r (c # cs)"; auto)+
  then show ?case by (simp add: replaceAll.simps[of r f "c # cs"])
qed

text \<open>
  If every match holds a certain code unit, so does every string with a match. The two
  patterns for inline data need a \<open>;\<close>.
\<close>

lemma occurs_holds:
  assumes "\<And>t. firstMatch r t \<noteq> None \<Longrightarrow> x \<in> set t" and "occurs r s"
  shows "x \<in> set s"
  using assms(2)
proof (induction s)
  case Nil
  then show ?case using assms(1)[of "[]"] by simp
next
  case (Cons c cs)
  then show ?case using assms(1)[of "c # cs"] by auto
qed

lemma dataUri_semicolon:
  assumes "firstMatch dataUriRx t \<noteq> None"
  shows "59 \<in> set t"
proof -
  from assms obtain st where "firstMatch dataUriRx t = Some st" by auto
  from firstMatch_mem[OF this]
  obtain m1 m2 m3 where m1: "m1 \<in> set (ms (lit ''data:image'') (t, noCaptures))"
    and m2: "m2 \<in> set (ms (Star (Atom (\<lambda>c. c \<noteq> 34 \<and> \<not> isChar CHR '';'' c \<and> \<not> isChar CHR '')'' c))) m1)"
    and m3: "m3 \<in> set (ms (lit '';base64,'') m2)"
    unfolding dataUriRx_def seqs_simps ms_Seq_iff
    by blast
  from m3 obtain k where k: "k \<in> set (ms (Atom (isChar CHR '';'')) m2)"
    unfolding lit_def list.map seqs_simps ms_Seq_iff by blast
  from ms_suffix[OF m1] obtain p1 where p1: "t = p1 @ fst m1" by auto
  from ms_suffix[OF m2] obtain p2 where p2: "fst m1 = p2 @ fst m2" by auto
  from k have "fst m2 = 59 # fst k"
    by (cases m2) (auto simp: ms_Atom_iff isChar_def cu_def)
  with p1 p2 show ?thesis by simp
qed

lemma imgData_semicolon:
  assumes "firstMatch imgDataRx t \<noteq> None"
  shows "59 \<in> set t"
proof -
  from assms obtain st where "firstMatch imgDataRx t = Some st" by auto
  from firstMatch_mem[OF this]
  obtain m1 m2 m3 m4 m5 m6 m7 where m1: "m1 \<in> set (ms (litI ''<img'') (t, noCaptures))"
    and m2: "m2 \<in> set (ms (Star (Atom (\<lambda>c. \<not> isChar CHR ''>'' c))) m1)"
    and m3: "m3 \<in> set (ms (litI ''src='') m2)"
    and m4: "m4 \<in> set (ms (Atom isQuote) m3)"
    and m5: "m5 \<in> set (ms (litI ''data:image'') m4)"
    and m6: "m6 \<in> set (ms (Star (Atom (\<lambda>c. \<not> isQuote c))) m5)"
    and m7: "m7 \<in> set (ms (litI '';base64,'') m6)"
    unfolding imgDataRx_def seqs_simps ms_Seq_iff
    by blast
  from m7 obtain k where k: "k \<in> set (ms (Atom (isCharI CHR '';'')) m6)"
    unfolding litI_def list.map seqs_simps ms_Seq_iff by blast
  from ms_suffix[OF m1] obtain p1 where p1: "t = p1 @ fst m1" by auto
  from ms_suffix[OF m2] obtain p2 where p2: "fst m1 = p2 @ fst m2" by auto
  from ms_suffix[OF m3] obtain p3 where p3: "fst m2 = p3 @ fst m3" by auto
  from ms_suffix[OF m4] obtain p4 where p4: "fst m3 = p4 @ fst m4" by auto
  from ms_suffix[OF m5] obtain p5 where p5: "fst m4 = p5 @ fst m5" by auto
  from ms_suffix[OF m6] obtain p6 where p6: "fst m5 = p6 @ fst m6" by auto
  from k have "fst m6 = 59 # fst k"
    by (cases m6) (auto simp: ms_Atom_iff isCharI_def canonicalize_def cu_def split: if_splits)
  with p1 p2 p3 p4 p5 p6 show ?thesis by simp
qed

text \<open>A match of an element pattern holds a second \<open><\<close>, that of its closing tag.\<close>

lemma element_second_lt:
  assumes "firstMatch (elementRx name) t \<noteq> None"
  shows "\<exists>p q. t = 60 # p @ 60 # q"
proof -
  from assms obtain st where "firstMatch (elementRx name) t = Some st" by auto
  from firstMatch_mem[OF this]
  obtain m1 m2 m3 m4 m5 where m1: "m1 \<in> set (ms (litI (''<'' @ name)) (t, noCaptures))"
    and m2: "m2 \<in> set (ms (Star (Atom (\<lambda>c. \<not> isChar CHR ''>'' c))) m1)"
    and m3: "m3 \<in> set (ms (Atom (isChar CHR ''>'')) m2)"
    and m4: "m4 \<in> set (ms (Lazy (Atom (\<lambda>c. True))) m3)"
    and m5: "m5 \<in> set (ms (litI (''</'' @ name @ ''>'')) m4)"
    unfolding elementRx_def seqs_simps ms_Seq_iff
    by blast
  from m1 obtain k0 where k0: "k0 \<in> set (ms (Atom (isCharI CHR ''<'')) (t, noCaptures))"
    and m1': "m1 \<in> set (ms (seqs (map (\<lambda>c. Atom (isCharI c)) name)) k0)"
    unfolding litI_def list.map append.simps seqs_simps ms_Seq_iff by blast
  from m5 obtain k where k: "k \<in> set (ms (Atom (isCharI CHR ''<'')) m4)"
    unfolding litI_def list.map append.simps seqs_simps ms_Seq_iff by blast
  from k0 have t: "t = 60 # fst k0"
    by (auto simp: ms_Atom_iff)
  from ms_suffix[OF m1'] obtain p1 where p1: "fst k0 = p1 @ fst m1" by auto
  from ms_suffix[OF m2] obtain p2 where p2: "fst m1 = p2 @ fst m2" by auto
  from ms_suffix[OF m3] obtain p3 where p3: "fst m2 = p3 @ fst m3" by auto
  from ms_suffix[OF m4] obtain p4 where p4: "fst m3 = p4 @ fst m4" by auto
  from k have "fst m4 = 60 # fst k"
    by (cases m4) (auto simp: ms_Atom_iff)
  with t p1 p2 p3 p4 have "t = 60 # (p1 @ p2 @ p3 @ p4) @ 60 # fst k" by simp
  then show ?thesis by blast
qed

text \<open>
  A string \<open><\<close> \<open>u\<close> \<open>t\<close> with no \<open><\<close> in \<open>u\<close> has no match when there is none at
  its start and none in \<open>t\<close>.
\<close>

lemma no_occurs_lt:
  assumes r: "r \<in> set ltRxs" and u: "60 \<notin> set u" and a: "firstMatch r (60 # u @ t) = None"
    and t: "\<not> occurs r t"
  shows "\<not> occurs r (60 # u @ t)"
proof -
  have "firstMatch r (c # cs) = None" if "c \<in> set u" for c cs
  proof (rule lt_Cons[OF r])
    show "c \<noteq> 60" using that u by blast
  qed
  then have "occurs r (u @ t) = occurs r t" by (rule occurs_skip)
  with a t show ?thesis by simp
qed

lemma no_occurs_closing:
  assumes r: "r \<in> set ltRxs" and b: "\<And>cs. firstMatch r (60 # 47 # cs) = None"
  shows "\<not> occurs r [60, 47, 97, 62]"
  using lt_Nil[OF r] lt_Cons[OF r, of 47] lt_Cons[OF r, of 97] lt_Cons[OF r, of 62] b
  by simp

subsection \<open>An anchor and an image that the loop body leaves unchanged\<close>

lemma removeElements_unchanged:
  assumes "\<And>r. r \<in> set removalRxs \<Longrightarrow> \<not> occurs r s"
  shows "removeElements s = s"
proof -
  have "replaceAll r (\<lambda>_ _. []) s = s" if "r \<in> set removalRxs" for r
    using assms[OF that] by (rule replaceAll_no_occurs)
  then show ?thesis by (simp add: removeElements_def removalRxs_def)
qed

lemma loopBody_unchanged:
  assumes "\<And>r. r \<in> set removalRxs \<Longrightarrow> \<not> occurs r s" and "stripAttributes s = s"
    and "\<not> occurs betweenTagsRx s" and "\<not> occurs emptyElementRx s"
  shows "loopBody s = s"
  using removeElements_unchanged[of s] assms
  by (simp add: loopBody_def collapseBetweenTags_def pruneEmpty_def replaceAll_no_occurs)

lemma tail_anchor:
  "\<not> occurs betweenTagsRx [62, 120, 60, 47, 97, 62]" "stripAttributes [120, 60, 47, 97, 62] = [120, 60, 47, 97, 62]"
  "\<not> occurs betweenTagsRx [62]"
  by code_simp+

lemma href_allowed: "toLowerCase [104, 114, 101, 102] \<in> set allowedAttrs"
  "toLowerCase [115, 114, 99] \<in> set allowedAttrs"
  by (simp_all add: toLowerCase_def allowedAttrs_def js_def)

lemma names_ok: "isTagName [97]" "isTagName [105, 109, 103]" "isAttrName [104, 114, 101, 102]"
  "isAttrName [115, 114, 99]" "isBlank [32]" "isBlank []" "isQuote 34"
  by (simp_all add: isTagName_def isAttrName_def isBlank_def isLetterI_def canonicalize_def
      isSpace_def isQuote_def)

text \<open>
  \<^verbatim>\<open><a href="v">x</a>\<close> and \<^verbatim>\<open><img src="v">\<close>, written in code units, for a value
  \<open>v\<close> without quotes, \<open><\<close>, \<open>>\<close> and \<open>;\<close>: no pattern of the loop body matches,
  and the attribute pass rebuilds the tag as it is written.
\<close>

lemma anchor_unchanged:
  assumes v: "\<forall>c\<in>set v. \<not> isQuote c \<and> c \<noteq> 60 \<and> c \<noteq> 62 \<and> c \<noteq> 59"
  shows "loopBody (60 # 97 # 32 # 104 # 114 # 101 # 102 # 61 # 34 # v @ [34, 62, 120, 60, 47, 97, 62])
           = 60 # 97 # 32 # 104 # 114 # 101 # 102 # 61 # 34 # v @ [34, 62, 120, 60, 47, 97, 62]"
proof (rule loopBody_unchanged)
  let ?u = "97 # 32 # 104 # 114 # 101 # 102 # 61 # 34 # v @ [34, 62, 120]"
  let ?t = "[60, 47, 97, 62]"
  let ?s = "60 # 97 # 32 # 104 # 114 # 101 # 102 # 61 # 34 # v @ [34, 62, 120, 60, 47, 97, 62]"
  have s: "?s = 60 # ?u @ ?t" by simp
  have v60: "60 \<notin> set v" "62 \<notin> set v" "59 \<notin> set v" using v by blast+
  have u60: "60 \<notin> set ?u" using v60(1) by simp
  have seconds: "\<not> occurs r ?s"
    if r: "r \<in> set ltRxs"
      and a: "\<And>cs. firstMatch r (60 # 97 # 32 # cs) = None"
      and b: "\<And>cs. firstMatch r (60 # 47 # cs) = None" for r
    unfolding s
  proof (rule no_occurs_lt[OF r u60])
    show "firstMatch r (60 # ?u @ ?t) = None" using a by simp
    show "\<not> occurs r ?t" using r b by (rule no_occurs_closing)
  qed
  show "\<not> occurs r ?s" if r: "r \<in> set removalRxs" for r
  proof (cases "r = dataUriRx")
    case True
    have "59 \<notin> set ?s" using v60(3) by simp
    with occurs_holds[of dataUriRx 59 ?s] dataUri_semicolon True show ?thesis by blast
  next
    case False
    with r have r8: "r \<in> set [headRx, scriptRx, styleRx, svgRx, imgDataRx, metaRx, italicRx, inputRx]"
      by (simp add: removalRxs_def)
    then have rl: "r \<in> set ltRxs" by (auto simp: ltRxs_def)
    show ?thesis
    proof (rule seconds[OF rl])
      show "firstMatch r (60 # 97 # 32 # cs) = None" for cs
        by (rule lt_second_a[OF r8]) simp
      show "firstMatch r (60 # 47 # cs) = None" for cs
        by (rule lt_second_a[OF r8]) simp
    qed
  qed
  show "\<not> occurs emptyElementRx ?s"
  proof (rule seconds)
    show "emptyElementRx \<in> set ltRxs" by (simp add: ltRxs_def)
  qed (rule emptyElement_gt)+
  show "\<not> occurs betweenTagsRx ?s"
  proof -
    let ?p = "60 # 97 # 32 # 104 # 114 # 101 # 102 # 61 # 34 # v @ [34]"
    have p62: "62 \<notin> set ?p" using v60(2) by simp
    have "firstMatch betweenTagsRx (c # cs) = None" if "c \<in> set ?p" for c cs
    proof (rule betweenTags_start)
      show "c \<noteq> 62" using that p62 by blast
    qed
    then have "occurs betweenTagsRx (?p @ [62, 120, 60, 47, 97, 62])
        = occurs betweenTagsRx [62, 120, 60, 47, 97, 62]"
      by (rule occurs_skip)
    then show ?thesis using tail_anchor(1) by simp
  qed
  show "stripAttributes ?s = ?s"
  proof -
    let ?attrs = "[104, 114, 101, 102] @ [] @ 61 # [] @ 34 # v @ [34]"
    have q: "list_all (\<lambda>c. \<not> isQuote c) v" using v by (simp add: list_all_iff)
    have "cleanedAttrs ([104, 114, 101, 102] @ [] @ 61 # [] @ 34 # v @ 34 # []) = [?attrs]"
      using cleanedAttrs_at[OF names_ok(3) names_ok(6) names_ok(6) names_ok(7) names_ok(7) q, of "[]"]
      by (simp add: href_allowed cleanedAttrs_Nil)
    then have cl: "cleanedAttrs ?attrs = [?attrs]" by simp
    have n62: "62 \<notin> set ?attrs" using v60(2) by simp
    from stripAttributes_at[OF names_ok(1) _ names_ok(5) n62, of "[120, 60, 47, 97, 62]"]
    show ?thesis unfolding cl by (simp add: tail_anchor(2))
  qed
qed

lemma image_unchanged:
  assumes v: "\<forall>c\<in>set v. \<not> isQuote c \<and> c \<noteq> 60 \<and> c \<noteq> 62 \<and> c \<noteq> 59"
  shows "loopBody (60 # 105 # 109 # 103 # 32 # 115 # 114 # 99 # 61 # 34 # v @ [34, 62])
           = 60 # 105 # 109 # 103 # 32 # 115 # 114 # 99 # 61 # 34 # v @ [34, 62]"
proof (rule loopBody_unchanged)
  let ?u = "105 # 109 # 103 # 32 # 115 # 114 # 99 # 61 # 34 # v @ [34, 62]"
  let ?s = "60 # 105 # 109 # 103 # 32 # 115 # 114 # 99 # 61 # 34 # v @ [34, 62]"
  have v60: "60 \<notin> set v" "62 \<notin> set v" "59 \<notin> set v" using v by blast+
  have u60: "60 \<notin> set ?u" using v60(1) by simp
  have only: "\<not> occurs r ?s" if r: "r \<in> set ltRxs" and a: "firstMatch r ?s = None" for r
  proof -
    have "\<not> occurs r (60 # ?u @ [])"
    proof (rule no_occurs_lt[OF r u60])
      show "firstMatch r (60 # ?u @ []) = None" using a by simp
      show "\<not> occurs r []" using lt_Nil[OF r] by simp
    qed
    then show ?thesis by simp
  qed
  have second: "firstMatch (elementRx name) ?s = None" for name
  proof (rule ccontr)
    assume "firstMatch (elementRx name) ?s \<noteq> None"
    from element_second_lt[OF this] obtain p q where "?u = p @ 60 # q" by auto
    then have "60 \<in> set ?u" by (metis in_set_conv_decomp)
    with u60 show False by blast
  qed
  have s59: "59 \<notin> set ?s" using v60(3) by simp
  show "\<not> occurs r ?s" if r: "r \<in> set removalRxs" for r
  proof -
    consider "r = dataUriRx" | "r = imgDataRx" | "r = italicRx" | "r = inputRx"
      | "r \<in> set [headRx, scriptRx, styleRx, svgRx, metaRx]"
      using r by (auto simp: removalRxs_def)
    then show ?thesis
    proof cases
      case 1
      with occurs_holds[of dataUriRx 59 ?s] dataUri_semicolon s59 show ?thesis by blast
    next
      case 2
      with occurs_holds[of imgDataRx 59 ?s] imgData_semicolon s59 show ?thesis by blast
    next
      case 3
      show ?thesis unfolding 3
      proof (rule only)
        show "italicRx \<in> set ltRxs" by (simp add: ltRxs_def)
        show "firstMatch italicRx ?s = None" unfolding italicRx_def by (rule second)
      qed
    next
      case 4
      show ?thesis unfolding 4
      proof (rule only)
        show "inputRx \<in> set ltRxs" by (simp add: ltRxs_def)
        show "firstMatch inputRx ?s = None" by (rule input_third)
      qed
    next
      case 5
      then have rl: "r \<in> set ltRxs" by (auto simp: ltRxs_def)
      show ?thesis using rl
      proof (rule only)
        show "firstMatch r ?s = None" using 5 by (rule lt_second_i)
      qed
    qed
  qed
  show "\<not> occurs emptyElementRx ?s"
  proof (rule only)
    show "emptyElementRx \<in> set ltRxs" by (simp add: ltRxs_def)
    show "firstMatch emptyElementRx ?s = None" by (rule emptyElement_gt(3))
  qed
  show "\<not> occurs betweenTagsRx ?s"
  proof -
    let ?p = "60 # 105 # 109 # 103 # 32 # 115 # 114 # 99 # 61 # 34 # v @ [34]"
    have p62: "62 \<notin> set ?p" using v60(2) by simp
    have "firstMatch betweenTagsRx (c # cs) = None" if "c \<in> set ?p" for c cs
    proof (rule betweenTags_start)
      show "c \<noteq> 62" using that p62 by blast
    qed
    then have "occurs betweenTagsRx (?p @ [62]) = occurs betweenTagsRx [62]"
      by (rule occurs_skip)
    then show ?thesis using tail_anchor(3) by simp
  qed
  show "stripAttributes ?s = ?s"
  proof -
    let ?attrs = "[115, 114, 99] @ [] @ 61 # [] @ 34 # v @ [34]"
    have q: "list_all (\<lambda>c. \<not> isQuote c) v" using v by (simp add: list_all_iff)
    have "cleanedAttrs ([115, 114, 99] @ [] @ 61 # [] @ 34 # v @ 34 # []) = [?attrs]"
      using cleanedAttrs_at[OF names_ok(4) names_ok(6) names_ok(6) names_ok(7) names_ok(7) q, of "[]"]
      by (simp add: href_allowed cleanedAttrs_Nil)
    then have cl: "cleanedAttrs ?attrs = [?attrs]" by simp
    have n62: "62 \<notin> set ?attrs" using v60(2) by simp
    from stripAttributes_at[OF names_ok(2) _ names_ok(5) n62, of "[]"]
    show ?thesis unfolding cl by (simp add: stripAttributes_Nil)
  qed
qed


section \<open>The filter on the examples of the specification\<close>

lemma ex_div_attrs:
  \<open>removeUnwantedElements (js ''<div onclick="evil()" id="x" data-foo="y">t</div>'')
     = Some (js ''<div id="x">t</div>'')\<close>
  by code_simp

lemma ex_iframe:
  \<open>removeUnwantedElements (js ''<iframe src="https://evil/">x</iframe>'')
     = Some (js ''<iframe src="https://evil/">x</iframe>'')\<close>
  by code_simp

lemma ex_div_href:
  \<open>removeUnwantedElements (js ''<div href="u">t</div>'') = Some (js ''<div href="u">t</div>'')\<close>
  by code_simp

lemma ex_javascript_href:
  \<open>removeUnwantedElements (js ''<a href="javascript:evil()">x</a>'')
     = Some (js ''<a href="javascript:evil()">x</a>'')\<close>
  by code_simp

lemma ex_https_href:
  \<open>removeUnwantedElements (js ''<a href="https://ok">x</a>'')
     = Some (js ''<a href="https://ok">x</a>'')\<close>
  by code_simp

lemma ex_relative_href:
  \<open>removeUnwantedElements (js ''<a href="//host/p">x</a>'')
     = Some (js ''<a href="//host/p">x</a>'')\<close>
  by code_simp

lemma ex_ftp_src:
  \<open>removeUnwantedElements (js ''<img src="ftp://h/p.png">'')
     = Some (js ''<img src="ftp://h/p.png">'')\<close>
  by code_simp

lemma ex_img_data:
  \<open>removeUnwantedElements (js ''<img src="data:image/png;base64,AAAA">'') = Some []\<close>
  by code_simp

lemma ex_img_data_inside:
  \<open>removeUnwantedElements (js ''<p>a<img src="data:image/png;base64,AAAA">b</p>'')
     = Some (js ''<p>ab</p>'')\<close>
  by code_simp

lemma ex_img_alt:
  \<open>removeUnwantedElements (js ''<img src="https://x/y.png" alt="a">'')
     = Some (js ''<img src="https://x/y.png">'')\<close>
  by code_simp




lemma ex_img_id_alt:
  \<open>removeUnwantedElements (js ''<img id="i" alt="a">'') = Some (js ''<img id="i">'')\<close>
  by code_simp

lemma ex_img_unquoted:
  "removeUnwantedElements (js ''<img src=data:image/png;base64,AAAA>'') = Some (js ''<img>'')"
  by code_simp

lemma ex_span: "removeUnwantedElements (js ''<span></span>'') = Some []"
  by code_simp

lemma ex_p: "removeUnwantedElements (js ''<p>   </p>'') = Some []"
  by code_simp

lemma ex_nested_span: "removeUnwantedElements (js ''<div><p><span></span></p></div>'') = Some []"
  by code_simp

lemma ex_nested_p: "removeUnwantedElements (js ''<div> <div><p>   </p></div> </div>'') = Some []"
  by code_simp




lemma ex_hyphen_empty:
  "removeUnwantedElements (js ''<my-tag></my-tag>'') = Some (js ''<my-tag></my-tag>'')"
  by code_simp

lemma ex_colon_empty:
  "removeUnwantedElements (js ''<o:p></o:p>'') = Some (js ''<o:p></o:p>'')"
  by code_simp

lemma ex_kept_attrs:
  \<open>cleanedAttrs (js ''onclick="evil()" id="x" data-foo="y"'') = [js ''id="x"'']\<close>
  by code_simp


lemma ex_iframe_occurs:
  \<open>occurs (litI ''<iframe'') (js ''<iframe src="https://evil/">x</iframe>'')\<close>
  by code_simp

lemma implementations_differ_on_iframe:
  assumes \<open>\<not> occurs (litI ''<iframe'')
             (sanitizeHtml (js ''<iframe src="https://evil/">x</iframe>'') options)\<close>
  shows \<open>Some (removeUnwantedElements2 sanitizeHtml (js ''<iframe src="https://evil/">x</iframe>''))
           \<noteq> removeUnwantedElements (js ''<iframe src="https://evil/">x</iframe>'')\<close>
  using assms ex_iframe_occurs by (auto simp: ex_iframe removeUnwantedElements2_def)


section \<open>Listing and fetching\<close>

lemma mapWithIndex_fst:
  "map fst (mapWithIndex (\<lambda>t index. (index, g t)) k xs) = [k..<k + length xs]"
proof (induction xs arbitrary: k)
  case Nil
  then show ?case by simp
next
  case (Cons x xs)
  have "[k..<k + length (x # xs)] = k # [Suc k..<Suc k + length xs]"
    by (subst upt_rec) simp
  then show ?case using Cons.IH[of "Suc k"] by simp
qed

lemma mapWithIndex_snd: "map snd (mapWithIndex (\<lambda>t index. (index, g t)) k xs) = map g xs"
  by (induction xs arbitrary: k) simp_all

lemma length_mapWithIndex: "length (mapWithIndex f k xs) = length xs"
  by (induction xs arbitrary: k) simp_all

section \<open>The claims\<close>

text \<open>
  Claim C7. The content filter of src/index.ts is a total function: for every input
  string the \<open>do ... while\<close> loop ends and the filter returns a string. (The model has
  no branch that raises: the source only calls \<open>replaceAll\<close>, \<open>exec\<close>, \<open>push\<close> and
  \<open>join\<close> on strings.)
\<close>

theorem removeUnwantedElements_total: "\<exists>out. removeUnwantedElements html = Some out"
  using filter_result[of html] by blast

text \<open>
  Claim C2. The content filter is idempotent: for every input the filter returns an
  output, and the filter applied to that output returns it unchanged.
\<close>

theorem removeUnwantedElements_idempotent:
  "\<exists>out. removeUnwantedElements html = Some out \<and> removeUnwantedElements out = Some out"
proof -
  from filter_result[of html] obtain out where
    "removeUnwantedElements html = Some out" "loopBody out = out" by blast
  with filter_fixed[of out] show ?thesis by blast
qed

text \<open>
  Claim C6, as the code has it. The claim as written fails: the pattern of src/index.ts
  for an empty element takes as name a letter followed by letters and digits only.
  What holds: for every input the output holds no element \<open><name></name>\<close> without
  attributes and content whose name is a letter followed by letters and digits and
  whose closing tag repeats that name (compared without case, with only white space
  between the tags), and no white space directly between a \<open>>\<close> and a \<open><\<close>. The
  filter turns \<open><span></span>\<close> and \<open><p>   </p>\<close> into the empty string, and
  also the two examples that nest them two levels deep.
\<close>

theorem empty_elements_pruned:
  "(\<exists>out. removeUnwantedElements html = Some out \<and> \<not> occurs emptyElementRx out
      \<and> \<not> occurs betweenTagsRx out)
   \<and> removeUnwantedElements (js ''<span></span>'') = Some []
   \<and> removeUnwantedElements (js ''<p>   </p>'') = Some []
   \<and> removeUnwantedElements (js ''<div><p><span></span></p></div>'') = Some []
   \<and> removeUnwantedElements (js ''<div> <div><p>   </p></div> </div>'') = Some []"
proof -
  from filter_result[of html] obtain out where
    out: "removeUnwantedElements html = Some out" "loopBody out = out" by blast
  from loopBody_fixed[OF out(2)] have "\<not> occurs betweenTagsRx out"
    and "replaceAll emptyElementRx (\<lambda>_ _. []) out = out"
    using collapse_fixed by (simp_all add: pruneEmpty_def)
  with delete_fixed[OF minlen_regexes(10)] out(1)
  have "\<exists>out. removeUnwantedElements html = Some out \<and> \<not> occurs emptyElementRx out
      \<and> \<not> occurs betweenTagsRx out" by blast
  then show ?thesis using ex_span ex_p ex_nested_span ex_nested_p by simp
qed

text \<open>
  The claim C6 as written is false: the empty elements \<open><my-tag></my-tag>\<close> and
  \<open><o:p></o:p>\<close>, whose names hold a hyphen and a colon, come back unchanged.
\<close>

theorem named_empty_element_survives:
  "removeUnwantedElements (js ''<my-tag></my-tag>'') = Some (js ''<my-tag></my-tag>'')
   \<and> removeUnwantedElements (js ''<o:p></o:p>'') = Some (js ''<o:p></o:p>'')"
  using ex_hyphen_empty ex_colon_empty by simp






text \<open>
  Claim C3, as the code has it. The claim as written fails: the allow-list of
  src/index.ts is the one set \<open>id\<close>, \<open>href\<close>, \<open>src\<close> for every tag. What holds
  is what the attribute pass does, stated without the matcher. It goes through the
  string from the left. Where the string reads \<open><\<close>, a name of a letter followed by
  letters and digits, white space, a text without \<open>>\<close>, and \<open>>\<close>, it writes
  \<open><\<close>, the name, a space and the attribute for each kept attribute of that text,
  and \<open>>\<close>, and goes on behind that \<open>>\<close>; where the string does not read so, it
  copies one code unit and goes on.
  The kept attributes of a text are found from the left as well: where the text reads
  name (a letter followed by letters, digits and hyphens), white space or none, \<open>=\<close>,
  white space or none, a quote, a value without quotes, a quote, this attribute is kept
  as written if its lower-cased name is \<open>id\<close>, \<open>href\<close> or \<open>src\<close>, dropped
  otherwise, and the search goes on behind it; where the text does not read so, the
  search goes on behind the next code unit. The pass leaves every output of the filter
  unchanged, and the example of the specification gives \<^verbatim>\<open><div id="x">t</div>\<close>.
\<close>

theorem attributes_stripped:
  \<open>(isTagName tag \<and> wsp \<noteq> [] \<and> isBlank wsp \<and> cu CHR ''>'' \<notin> set attrs \<longrightarrow>
      stripAttributes (js ''<'' @ tag @ wsp @ attrs @ js ''>'' @ rest)
        = js ''<'' @ tag @ concat (map (\<lambda>a. js '' '' @ a) (cleanedAttrs attrs)) @ js ''>''
          @ stripAttributes rest)
   \<and> (\<not> (\<exists>tag wsp attrs rest. s = js ''<'' @ tag @ wsp @ attrs @ js ''>'' @ rest \<and> isTagName tag
            \<and> wsp \<noteq> [] \<and> isBlank wsp \<and> cu CHR ''>'' \<notin> set attrs) \<longrightarrow>
      stripAttributes s = (case s of [] \<Rightarrow> [] | c # cs \<Rightarrow> c # stripAttributes cs))
   \<and> (isAttrName name \<and> isBlank w1 \<and> isBlank w2 \<and> isQuote q1 \<and> isQuote q2
        \<and> list_all (\<lambda>c. \<not> isQuote c) v \<longrightarrow>
      cleanedAttrs (name @ w1 @ js ''='' @ w2 @ [q1] @ v @ [q2] @ t)
        = (if toLowerCase name \<in> {js ''id'', js ''href'', js ''src''}
           then [name @ w1 @ js ''='' @ w2 @ [q1] @ v @ [q2]] else []) @ cleanedAttrs t)
   \<and> (\<not> (\<exists>name w1 w2 q1 v q2 t. u = name @ w1 @ js ''='' @ w2 @ [q1] @ v @ [q2] @ t
            \<and> isAttrName name \<and> isBlank w1 \<and> isBlank w2 \<and> isQuote q1 \<and> isQuote q2
            \<and> list_all (\<lambda>c. \<not> isQuote c) v) \<longrightarrow>
      cleanedAttrs u = (case u of [] \<Rightarrow> [] | c # cs \<Rightarrow> cleanedAttrs cs))
   \<and> (\<exists>out. removeUnwantedElements html = Some out \<and> stripAttributes out = out)
   \<and> removeUnwantedElements (js ''<div onclick="evil()" id="x" data-foo="y">t</div>'')
       = Some (js ''<div id="x">t</div>'')\<close>
proof -
  have a: "stripAttributes (js ''<'' @ tag @ wsp @ attrs @ js ''>'' @ rest)
        = js ''<'' @ tag @ concat (map (\<lambda>a. js '' '' @ a) (cleanedAttrs attrs)) @ js ''>''
          @ stripAttributes rest"
    if "isTagName tag \<and> wsp \<noteq> [] \<and> isBlank wsp \<and> cu CHR ''>'' \<notin> set attrs"
    using that stripAttributes_at[of tag wsp attrs rest] by (simp add: lits)
  have b: "stripAttributes s = (case s of [] \<Rightarrow> [] | c # cs \<Rightarrow> c # stripAttributes cs)"
    if "\<not> (\<exists>tag wsp attrs rest. s = js ''<'' @ tag @ wsp @ attrs @ js ''>'' @ rest \<and> isTagName tag
            \<and> wsp \<noteq> [] \<and> isBlank wsp \<and> cu CHR ''>'' \<notin> set attrs)"
    using that by (intro stripAttributes_none) (simp add: lits)
  have c: "cleanedAttrs (name @ w1 @ js ''='' @ w2 @ [q1] @ v @ [q2] @ t)
        = (if toLowerCase name \<in> {js ''id'', js ''href'', js ''src''}
           then [name @ w1 @ js ''='' @ w2 @ [q1] @ v @ [q2]] else []) @ cleanedAttrs t"
    if "isAttrName name \<and> isBlank w1 \<and> isBlank w2 \<and> isQuote q1 \<and> isQuote q2
        \<and> list_all (\<lambda>c. \<not> isQuote c) v"
    using that cleanedAttrs_at[of name w1 w2 q1 q2 v t] by (simp add: lits allowedAttrs_def)
  have d: "cleanedAttrs u = (case u of [] \<Rightarrow> [] | c # cs \<Rightarrow> cleanedAttrs cs)"
    if "\<not> (\<exists>name w1 w2 q1 v q2 t. u = name @ w1 @ js ''='' @ w2 @ [q1] @ v @ [q2] @ t
            \<and> isAttrName name \<and> isBlank w1 \<and> isBlank w2 \<and> isQuote q1 \<and> isQuote q2
            \<and> list_all (\<lambda>c. \<not> isQuote c) v)"
    using that by (intro cleanedAttrs_none) (simp add: lits)
  from filter_result[of html] obtain out where
    "removeUnwantedElements html = Some out" "stripAttributes out = out"
    using loopBody_fixed(2) by blast
  with a b c d ex_div_attrs show ?thesis by blast
qed

theorem attributes_stripped_witness:
  \<open>stripAttributes (js ''<div onclick="evil()" id="x" data-foo="y">t</div>'')
     = js ''<div id="x">'' @ stripAttributes (js ''t</div>'')
   \<and> stripAttributes (js ''t</div>'') = js ''t'' @ stripAttributes (js ''</div>'')
   \<and> cleanedAttrs (js ''id="x" data-foo="y"'') = [js ''id="x"''] @ cleanedAttrs (js '' data-foo="y"'')
   \<and> cleanedAttrs (js ''onclick="evil()" id="x" data-foo="y"'')
       = cleanedAttrs (js '' id="x" data-foo="y"'')
   \<and> cleanedAttrs (js '' data-foo="y"'') = cleanedAttrs (js ''data-foo="y"'')\<close>
proof -
  note th = attributes_stripped
  have n: "isTagName (js ''div'')" "isBlank (js '' '')" "isAttrName (js ''id'')"
    "isAttrName (js ''onclick'')" "isBlank []" "isQuote 34"
    by (simp_all add: isTagName_def isAttrName_def isBlank_def isLetterI_def isDigit_def
        canonicalize_def isSpace_def isQuote_def js_def isChar_def cu_def)
  have 1: \<open>stripAttributes (js ''<div onclick="evil()" id="x" data-foo="y">t</div>'')
     = js ''<div id="x">'' @ stripAttributes (js ''t</div>'')\<close>
  proof -
    have \<open>cu CHR ''>'' \<notin> set (js ''onclick="evil()" id="x" data-foo="y"'')\<close>
      by (simp add: js_def cu_def)
    with th[where tag = "js ''div''" and wsp = "js '' ''"
        and attrs = \<open>js ''onclick="evil()" id="x" data-foo="y"''\<close> and rest = "js ''t</div>''"] n
    have \<open>stripAttributes (js ''<'' @ js ''div'' @ js '' ''
              @ js ''onclick="evil()" id="x" data-foo="y"'' @ js ''>'' @ js ''t</div>'')
        = js ''<'' @ js ''div''
          @ concat (map (\<lambda>a. js '' '' @ a)
              (cleanedAttrs (js ''onclick="evil()" id="x" data-foo="y"''))) @ js ''>''
          @ stripAttributes (js ''t</div>'')\<close>
      by (simp add: js_def)
    then show ?thesis by (simp add: ex_kept_attrs) (simp add: js_def)
  qed
  have 2: "stripAttributes (js ''t</div>'') = js ''t'' @ stripAttributes (js ''</div>'')"
  proof -
    have "\<not> (\<exists>tag wsp attrs rest. js ''t</div>'' = js ''<'' @ tag @ wsp @ attrs @ js ''>'' @ rest
        \<and> isTagName tag \<and> wsp \<noteq> [] \<and> isBlank wsp \<and> cu CHR ''>'' \<notin> set attrs)"
      by (simp add: js_def)
    with th[where s = "js ''t</div>''"] show ?thesis by (simp add: js_def)
  qed
  have 3: \<open>cleanedAttrs (js ''id="x" data-foo="y"'')
      = [js ''id="x"''] @ cleanedAttrs (js '' data-foo="y"'')\<close>
  proof -
    have "list_all (\<lambda>c. \<not> isQuote c) (js ''x'')" "toLowerCase (js ''id'') = js ''id''"
      by (simp_all add: js_def isQuote_def toLowerCase_def)
    with th[where name = "js ''id''" and ?w1.0 = "[]" and ?w2.0 = "[]" and ?q1.0 = 34
        and ?q2.0 = 34 and v = "js ''x''" and t = \<open>js '' data-foo="y"''\<close>] n
    show ?thesis by (simp add: js_def)
  qed
  have no_letter: "\<not> (\<exists>name w1 w2 q1 v q2 t. c # cs = name @ w1 @ js ''='' @ w2 @ [q1] @ v @ [q2] @ t
            \<and> isAttrName name \<and> isBlank w1 \<and> isBlank w2 \<and> isQuote q1 \<and> isQuote q2
            \<and> list_all (\<lambda>c. \<not> isQuote c) v)" if "\<not> isLetterI c" for c cs
  proof
    assume "\<exists>name w1 w2 q1 v q2 t. c # cs = name @ w1 @ js ''='' @ w2 @ [q1] @ v @ [q2] @ t
            \<and> isAttrName name \<and> isBlank w1 \<and> isBlank w2 \<and> isQuote q1 \<and> isQuote q2
            \<and> list_all (\<lambda>c. \<not> isQuote c) v"
    then obtain name r where "c # cs = name @ r" "isAttrName name" by blast
    then have "isLetterI c" by (cases name) (auto simp: isAttrName_def)
    with that show False by simp
  qed
  have 5: \<open>cleanedAttrs (js '' data-foo="y"'') = cleanedAttrs (js ''data-foo="y"'')\<close>
    using th[where u = \<open>js '' data-foo="y"''\<close>] no_letter[of 32]
    by (simp add: js_def)
  have 4: \<open>cleanedAttrs (js ''onclick="evil()" id="x" data-foo="y"'')
       = cleanedAttrs (js '' id="x" data-foo="y"'')\<close>
  proof -
    have "list_all (\<lambda>c. \<not> isQuote c) (js ''evil()'')"
      "toLowerCase (js ''onclick'') \<notin> {js ''id'', js ''href'', js ''src''}"
      by (simp_all add: js_def isQuote_def toLowerCase_def)
    with th[where name = "js ''onclick''" and ?w1.0 = "[]" and ?w2.0 = "[]" and ?q1.0 = 34
        and ?q2.0 = 34 and v = "js ''evil()''" and t = \<open>js '' id="x" data-foo="y"''\<close>] n
    show ?thesis by (simp add: js_def)
  qed
  from 1 2 3 4 5 show ?thesis by blast
qed


text \<open>
  The claim C3 as written is false: \<open>href\<close> is kept on an element that is not an
  anchor, and \<open>alt\<close> is dropped from an image.
\<close>

theorem allow_list_not_per_tag:
  \<open>removeUnwantedElements (js ''<div href="u">t</div>'') = Some (js ''<div href="u">t</div>'')
   \<and> removeUnwantedElements (js ''<img id="i" alt="a">'') = Some (js ''<img id="i">'')\<close>
  using ex_div_href ex_img_id_alt by simp

text \<open>
  Claim C4, as the code has it. The claim as written fails: src/index.ts has no list
  of URI schemes. What holds: for every value without quotes, \<open><\<close>, \<open>>\<close> and
  \<open>;\<close>, whatever its scheme, the filter returns \<^verbatim>\<open><a href="value">x</a>\<close> and
  \<^verbatim>\<open><img src="value">\<close> unchanged; so the anchors with an \<open>https:\<close> href, with a
  \<open>javascript:\<close> href and with a protocol-relative href come back unchanged, and an
  image with an \<open>ftp:\<close> source too.
\<close>

theorem href_src_kept_for_every_value:
  assumes \<open>\<forall>c\<in>set v. \<not> isQuote c \<and> c \<notin> set (js ''<>;'')\<close>
  shows \<open>removeUnwantedElements (js ''<a href="'' @ v @ js ''">x</a>'')
           = Some (js ''<a href="'' @ v @ js ''">x</a>'')
     \<and> removeUnwantedElements (js ''<img src="'' @ v @ js ''">'')
           = Some (js ''<img src="'' @ v @ js ''">'')
     \<and> removeUnwantedElements (js ''<a href="https://ok">x</a>'')
         = Some (js ''<a href="https://ok">x</a>'')
     \<and> removeUnwantedElements (js ''<a href="javascript:evil()">x</a>'')
         = Some (js ''<a href="javascript:evil()">x</a>'')
     \<and> removeUnwantedElements (js ''<a href="//host/p">x</a>'')
         = Some (js ''<a href="//host/p">x</a>'')
     \<and> removeUnwantedElements (js ''<img src="ftp://h/p.png">'')
         = Some (js ''<img src="ftp://h/p.png">'')\<close>
proof -
  have v: "\<forall>c\<in>set v. \<not> isQuote c \<and> c \<noteq> 60 \<and> c \<noteq> 62 \<and> c \<noteq> 59"
    using assms by (simp add: js_def)
  have e: \<open>js ''<a href="'' @ v @ js ''">x</a>''
      = 60 # 97 # 32 # 104 # 114 # 101 # 102 # 61 # 34 # v @ [34, 62, 120, 60, 47, 97, 62]\<close>
    \<open>js ''<img src="'' @ v @ js ''">''
      = 60 # 105 # 109 # 103 # 32 # 115 # 114 # 99 # 61 # 34 # v @ [34, 62]\<close>
    by (simp_all add: js_def)
  have \<open>removeUnwantedElements (js ''<a href="'' @ v @ js ''">x</a>'')
           = Some (js ''<a href="'' @ v @ js ''">x</a>'')\<close>
    unfolding e using anchor_unchanged[OF v] by (rule filter_fixed)
  moreover have \<open>removeUnwantedElements (js ''<img src="'' @ v @ js ''">'')
           = Some (js ''<img src="'' @ v @ js ''">'')\<close>
    unfolding e using image_unchanged[OF v] by (rule filter_fixed)
  ultimately show ?thesis
    using ex_https_href ex_javascript_href ex_relative_href ex_ftp_src by simp
qed

theorem href_src_kept_for_every_value_witness:
  \<open>removeUnwantedElements (js ''<a href="javascript:evil()">x</a>'')
     = Some (js ''<a href="javascript:evil()">x</a>'')
   \<and> removeUnwantedElements (js ''<img src="javascript:evil()">'')
     = Some (js ''<img src="javascript:evil()">'')\<close>
proof -
  have \<open>\<forall>c\<in>set (js ''javascript:evil()''). \<not> isQuote c \<and> c \<notin> set (js ''<>;'')\<close>
    by (simp add: js_def isQuote_def)
  from href_src_kept_for_every_value[OF this] show ?thesis
    by (simp add: js_def)
qed


text \<open>
  The claim C4 as written is false: neither the \<open>javascript:\<close> href nor the
  protocol-relative href is omitted; both anchors come back unchanged.
\<close>

theorem scheme_not_restricted:
  \<open>removeUnwantedElements (js ''<a href="javascript:evil()">x</a>'')
     = Some (js ''<a href="javascript:evil()">x</a>'')
   \<and> removeUnwantedElements (js ''<a href="//host/p">x</a>'')
     = Some (js ''<a href="//host/p">x</a>'')\<close>
  using ex_javascript_href ex_relative_href by simp

text \<open>
  Claim C5, as the code has it. The claim as written fails: \<open>alt\<close> is not on the
  allow-list of src/index.ts, so the image that is not inline data keeps its \<open>src\<close>
  only; and an image is removed as a whole only where the pattern of the source
  matches, which asks for a quoted source. What holds: no output holds \<open><img\<close>,
  code units other than \<open>>\<close>, \<open>src=\<close>, a quote, \<open>data:image\<close>, \<open>;base64,\<close> behind
  it before the next quote, that quote, and a later \<open>>\<close>; the image of the example is
  removed as a whole, also inside other markup; and
  \<^verbatim>\<open><img src="https://x/y.png" alt="a">\<close> comes back as
  \<^verbatim>\<open><img src="https://x/y.png">\<close>.
\<close>

theorem base64_images_removed:
  \<open>(\<exists>out. removeUnwantedElements html = Some out \<and> \<not> occurs imgDataRx out)
   \<and> removeUnwantedElements (js ''<img src="data:image/png;base64,AAAA">'') = Some []
   \<and> removeUnwantedElements (js ''<p>a<img src="data:image/png;base64,AAAA">b</p>'')
       = Some (js ''<p>ab</p>'')
   \<and> removeUnwantedElements (js ''<img src="https://x/y.png" alt="a">'')
       = Some (js ''<img src="https://x/y.png">'')\<close>
proof -
  from filter_result[of html] obtain out where
    out: "removeUnwantedElements html = Some out" "loopBody out = out" by blast
  have "imgDataRx \<in> set removalRxs" by (simp add: removalRxs_def)
  from removeElements_fixed[OF loopBody_fixed(1)[OF out(2)] this] out(1)
  have "\<exists>out. removeUnwantedElements html = Some out \<and> \<not> occurs imgDataRx out" by blast
  then show ?thesis using ex_img_data ex_img_data_inside ex_img_alt by simp
qed

text \<open>
  The claim C5 as written is false: the image that is not inline data loses its \<open>alt\<close>
  attribute, and of an image with an unquoted base64 source the tag stays.
\<close>

theorem img_alt_dropped:
  \<open>removeUnwantedElements (js ''<img src="https://x/y.png" alt="a">'')
     = Some (js ''<img src="https://x/y.png">'')
   \<and> removeUnwantedElements (js ''<img src=data:image/png;base64,AAAA>'') = Some (js ''<img>'')\<close>
  using ex_img_alt ex_img_unquoted by simp


text \<open>
  Claim C8. When the debugging endpoint answers with a list of targets, \<open>listPages\<close>
  returns one entry for each target of type \<open>page\<close> and for no other, in the order of
  the endpoint, with the title and the url of the target and with the position in
  that filtered list, counted from 0, as index. With three targets of kinds page,
  other, page it returns two entries, indexed 0 and 1, for the first and the third.
\<close>

theorem listPages_enumerates:
  assumes "cdpList b = Some targets"
  shows "(\<exists>entries. listPages b = Inr entries
            \<and> map snd entries
                = map (\<lambda>t. (title t, url t)) (filter (\<lambda>t. type' t = js ''page'') targets)
            \<and> map fst entries = [0..<length entries])
         \<and> (\<forall>t1 t2 t3. targets = [t1, t2, t3] \<and> type' t1 = js ''page''
                \<and> type' t2 \<noteq> js ''page'' \<and> type' t3 = js ''page''
              \<longrightarrow> listPages b = Inr [(0, title t1, url t1), (1, title t3, url t3)])"
proof -
  let ?pages = "filter (\<lambda>t. type' t = js ''page'') targets"
  let ?entries = "mapWithIndex (\<lambda>t index. (index, title t, url t)) 0 ?pages"
  have lp: "listPages b = Inr ?entries"
    using assms by (simp add: listPages_def getTargets_def)
  have "map snd ?entries = map (\<lambda>t. (title t, url t)) ?pages"
    by (rule mapWithIndex_snd)
  moreover have "map fst ?entries = [0..<length ?entries]"
    using mapWithIndex_fst[of "\<lambda>t. (title t, url t)" 0 ?pages]
    by (simp add: length_mapWithIndex)
  moreover have "listPages b = Inr [(0, title t1, url t1), (1, title t3, url t3)]"
    if "targets = [t1, t2, t3] \<and> type' t1 = js ''page'' \<and> type' t2 \<noteq> js ''page''
        \<and> type' t3 = js ''page''" for t1 t2 t3
    using that lp by simp
  ultimately show ?thesis using lp by blast
qed

theorem listPages_enumerates_witness:
  "cdpList threeTargets
     = Some [target ''1'' ''a'' ''page'', target ''2'' ''b'' ''other'', target ''3'' ''c'' ''page'']
   \<and> listPages threeTargets
     = Inr [(0, js ''a'', js ''https://a''), (1, js ''c'', js ''https://c'')]"
proof -
  let ?ts = "[target ''1'' ''a'' ''page'', target ''2'' ''b'' ''other'', target ''3'' ''c'' ''page'']"
  have l: "cdpList threeTargets = Some ?ts"
    by (simp add: threeTargets_def browserWith_def)
  have k: "type' (target ''1'' ''a'' ''page'') = js ''page''"
    "type' (target ''2'' ''b'' ''other'') \<noteq> js ''page''"
    "type' (target ''3'' ''c'' ''page'') = js ''page''"
    by (simp_all add: target_def js_def)
  from listPages_enumerates[OF l] k
  have "listPages threeTargets
      = Inr [(0, title (target ''1'' ''a'' ''page''), url (target ''1'' ''a'' ''page'')),
             (1, title (target ''3'' ''c'' ''page''), url (target ''3'' ''c'' ''page''))]"
    by blast
  then show ?thesis using l by (simp add: target_def)
qed

text \<open>
  Claim C9. When the list of page targets is not empty and has \<open>n\<close> entries, and
  \<open>pageIndex\<close> is below 0 or at least \<open>n\<close>, \<open>getHtmlContent\<close> throws the error of kind
  \<open>InvalidRequest\<close> whose message is \<open>Invalid page index. Available pages: 0-\<close>
  followed by \<open>n - 1\<close>; with two page targets and \<open>pageIndex\<close> 5 the message ends in
  \<open>0-1\<close>. (The specification calls this error \<open>InvalidIndexError\<close>; \<open>pageIndex\<close>
  is an integer, as in the specification.)
\<close>

theorem getHtmlContent_invalid_index:
  assumes "getTargets b = Inr targets" and "targets \<noteq> []"
    and "pageIndex < 0 \<or> int (length targets) \<le> pageIndex"
  shows "getHtmlContent b (Some pageIndex) selector
           = Some (Inl (McpError InvalidRequest
               (js ''Invalid page index. Available pages: 0-''
                @ numberToString (int (length targets) - 1))))"
  using assms by (auto simp: getHtmlContent_def)

theorem getHtmlContent_invalid_index_witness:
  "getTargets twoPages = Inr [target ''1'' ''a'' ''page'', target ''2'' ''b'' ''page'']
   \<and> getHtmlContent twoPages (Some 5) None
     = Some (Inl (McpError InvalidRequest (js ''Invalid page index. Available pages: 0-1'')))"
proof -
  let ?ts = "[target ''1'' ''a'' ''page'', target ''2'' ''b'' ''page'']"
  have g: "getTargets twoPages = Inr ?ts"
    by (simp add: getTargets_def twoPages_def browserWith_def target_def)
  have n: "numberToString (int (length ?ts) - 1) = js ''1''"
    by (simp add: numberToString_def digitsOf.simps[of "Suc 0"] js_def)
  from getHtmlContent_invalid_index[OF g, of 5 None] n g show ?thesis
    by (simp add: js_def)
qed

end
